theory Spec2Isabelle
  imports Main "HOL-Library.AList" "HOL-Library.Sublist"
begin

section \<open>Python values and string primitives\<close>

text \<open>
  The importer (\<^verbatim>\<open>datacontract/imports/glue_importer.py\<close>) works on Python strings
  and on the dictionaries and lists that \<^verbatim>\<open>json.loads\<close> and the catalog client return.
  A Python \<^verbatim>\<open>str\<close> is modelled as a \<^typ>\<open>string\<close> whose characters are the code
  points 0..255 (Latin-1); code points above 255 are outside the model.
\<close>

datatype pyval =
    PNone
  | PBool bool
  | PInt int
  | PStr string
  | PList "pyval list"
  | PDict "(string \<times> pyval) list"

text \<open>
  The exceptions that the modelled code can raise. \<open>UnbalancedBracketsError\<close> and
  \<open>MalformedTypeError\<close> are the error kinds named by the specification; no statement
  of the source raises them. \<open>Unmodelled\<close> is not a Python exception: it marks a JSON
  text outside the modelled fragment of \<^verbatim>\<open>json.loads\<close> (a float literal, \<^verbatim>\<open>NaN\<close>,
  \<^verbatim>\<open>Infinity\<close>, or a \<^verbatim>\<open>\u\<close> escape above code point 255), about which the
  model says nothing. \<open>DepthExceeded\<close> is not a Python exception either: the
  recursive functions of the JSON reader return it when their bound on the depth of
  calls is used up, which never happens under \<open>json_loads\<close> (lemma
  \<open>json_loads_depth\<close>). The interpreter's own limits (recursion depth, digits of an
  integer literal) are not modelled.
\<close>

datatype error =
    JSONDecodeError
  | IndexError
  | KeyError
  | AttributeError
  | TypeError
  | UnbalancedBracketsError
  | MalformedTypeError
  | Unmodelled
  | DepthExceeded

abbreviation (input) SQ :: char where "SQ \<equiv> CHR 0x27"
abbreviation (input) DQ :: char where "DQ \<equiv> CHR 0x22"

text \<open>\<^verbatim>\<open>s.startswith(p)\<close>\<close>

definition startswith :: "string \<Rightarrow> string \<Rightarrow> bool" where
  "startswith s p = (take (length p) s = p)"

text \<open>\<^verbatim>\<open>s.lower()\<close> on Latin-1: A-Z and the accented capitals move up by 32.\<close>

definition lower_char :: "char \<Rightarrow> char" where
  "lower_char c =
     (let n = (of_char c :: nat)
      in if (65 \<le> n \<and> n \<le> 90) \<or> (192 \<le> n \<and> n \<le> 222 \<and> n \<noteq> 215)
         then char_of (n + 32) else c)"

definition lower :: "string \<Rightarrow> string" where
  "lower s = map lower_char s"

text \<open>\<^verbatim>\<open>s.count(c)\<close>, \<^verbatim>\<open>s.find(c)\<close> and \<^verbatim>\<open>s.rfind(c)\<close> for a one-character \<open>c\<close>;
  the last two return -1 when \<open>c\<close> does not occur.\<close>

definition count_char :: "char \<Rightarrow> string \<Rightarrow> nat" where
  "count_char c s = length (filter (\<lambda>x. x = c) s)"

fun find_char :: "char \<Rightarrow> string \<Rightarrow> int" where
  "find_char c [] = -1"
| "find_char c (x # xs) =
     (if x = c then 0 else (let r = find_char c xs in if r < 0 then -1 else r + 1))"

definition rfind_char :: "char \<Rightarrow> string \<Rightarrow> int" where
  "rfind_char c s =
     (let r = find_char c (rev s) in if r < 0 then -1 else int (length s) - 1 - r)"

text \<open>Python slices \<^verbatim>\<open>s[i:j]\<close>, \<^verbatim>\<open>s[i:]\<close> and \<^verbatim>\<open>s[:j]\<close>: a negative
  index counts from the end, and every index is clipped to the string.\<close>

definition slice_index :: "nat \<Rightarrow> int \<Rightarrow> nat" where
  "slice_index n i = (if i < 0 then nat (int n + i) else min (nat i) n)"

definition slice :: "string \<Rightarrow> int \<Rightarrow> int \<Rightarrow> string" where
  "slice s i j =
     (let a = slice_index (length s) i; b = slice_index (length s) j
      in take (b - a) (drop a s))"

definition slice_from :: "string \<Rightarrow> int \<Rightarrow> string" where
  "slice_from s i = drop (slice_index (length s) i) s"

definition slice_to :: "string \<Rightarrow> int \<Rightarrow> string" where
  "slice_to s j = take (slice_index (length s) j) s"

text \<open>\<^verbatim>\<open>s.split(c)\<close>: always at least one piece.\<close>

fun split_char :: "char \<Rightarrow> string \<Rightarrow> string list" where
  "split_char c [] = [[]]"
| "split_char c (x # xs) =
     (if x = c then [] # split_char c xs
      else (case split_char c xs of
              [] \<Rightarrow> [[x]]
            | r # rs \<Rightarrow> (x # r) # rs))"

text \<open>\<^verbatim>\<open>s.replace(a, b)\<close> for one-character \<open>a\<close> and \<open>b\<close>.\<close>

definition replace_char :: "char \<Rightarrow> char \<Rightarrow> string \<Rightarrow> string" where
  "replace_char a b s = map (\<lambda>x. if x = a then b else x) s"

text \<open>
  \<^verbatim>\<open>re.findall(r'\b\w+\b', s)\<close>: the maximal runs of word characters, left to right.
  A word character is a letter, a digit or the underscore; on Latin-1 that is
  \<^verbatim>\<open>[A-Za-z0-9_]\<close> and the code points 170, 178, 179, 181, 185, 186, 188-190,
  192-214, 216-246 and 248-255.
\<close>

definition is_word_char :: "char \<Rightarrow> bool" where
  "is_word_char c =
     (let n = (of_char c :: nat)
      in (48 \<le> n \<and> n \<le> 57) \<or> (65 \<le> n \<and> n \<le> 90) \<or> n = 95 \<or> (97 \<le> n \<and> n \<le> 122)
         \<or> n = 170 \<or> n = 178 \<or> n = 179 \<or> n = 181 \<or> n = 185 \<or> n = 186
         \<or> (188 \<le> n \<and> n \<le> 190) \<or> (192 \<le> n \<and> n \<le> 214)
         \<or> (216 \<le> n \<and> n \<le> 246) \<or> 248 \<le> n)"

function findall_words :: "string \<Rightarrow> string list" where
  "findall_words [] = []"
| "findall_words (c # cs) =
     (if is_word_char c
      then (c # takeWhile is_word_char cs) # findall_words (dropWhile is_word_char cs)
      else findall_words cs)"
  by pat_completeness auto
termination
  by (relation "measure length") (auto simp: length_dropWhile_le less_Suc_eq_le)

section \<open>The JSON reader\<close>

text \<open>
  \<^verbatim>\<open>json.loads\<close> of the Python standard library, as \<^verbatim>\<open>generate_sub_fields\<close>
  calls it (default decoder, \<^verbatim>\<open>strict=True\<close>). Objects become dictionaries (a
  repeated key keeps its first position and its last value), arrays become lists,
  integer literals become unbounded integers. The functions follow the decoder's
  own: \<^verbatim>\<open>scanstring\<close>, \<^verbatim>\<open>scan_once\<close>, \<^verbatim>\<open>JSONObject\<close>, \<^verbatim>\<open>JSONArray\<close>.
\<close>

definition is_json_ws :: "char \<Rightarrow> bool" where
  "is_json_ws c = (c = CHR '' '' \<or> c = CHR 0x09 \<or> c = CHR 0x0A \<or> c = CHR 0x0D)"

definition skip_ws :: "string \<Rightarrow> string" where
  "skip_ws s = dropWhile is_json_ws s"

definition is_digit :: "char \<Rightarrow> bool" where
  "is_digit c = (let n = (of_char c :: nat) in 48 \<le> n \<and> n \<le> 57)"

definition digit_val :: "char \<Rightarrow> int" where
  "digit_val c = of_char c - 48"

definition hex_val :: "char \<Rightarrow> nat option" where
  "hex_val c =
     (let n = (of_char c :: nat)
      in if 48 \<le> n \<and> n \<le> 57 then Some (n - 48)
         else if 65 \<le> n \<and> n \<le> 70 then Some (n - 55)
         else if 97 \<le> n \<and> n \<le> 102 then Some (n - 87)
         else None)"

definition hex4 :: "char \<Rightarrow> char \<Rightarrow> char \<Rightarrow> char \<Rightarrow> nat option" where
  "hex4 a b c d =
     (case (hex_val a, hex_val b, hex_val c, hex_val d) of
        (Some w, Some x, Some y, Some z) \<Rightarrow> Some (((w * 16 + x) * 16 + y) * 16 + z)
      | _ \<Rightarrow> None)"

text \<open>The one-character escapes after a backslash.\<close>

definition unescape :: "char \<Rightarrow> char option" where
  "unescape e =
     (if e = DQ then Some DQ
      else if e = CHR 0x5C then Some (CHR 0x5C)
      else if e = CHR ''/'' then Some (CHR ''/'')
      else if e = CHR ''b'' then Some (CHR 0x08)
      else if e = CHR ''f'' then Some (CHR 0x0C)
      else if e = CHR ''n'' then Some (CHR 0x0A)
      else if e = CHR ''r'' then Some (CHR 0x0D)
      else if e = CHR ''t'' then Some (CHR 0x09)
      else None)"

definition prepend :: "char \<Rightarrow> error + (string \<times> string) \<Rightarrow> error + (string \<times> string)" where
  "prepend c r = (case r of Inl e \<Rightarrow> Inl e | Inr (s, rest) \<Rightarrow> Inr (c # s, rest))"

text \<open>\<^verbatim>\<open>scanstring\<close>: the text after an opening double quote, up to the closing one.
  Returns the decoded string and the rest of the text.\<close>

fun scanstring :: "string \<Rightarrow> error + (string \<times> string)" where
  "scanstring [] = Inl JSONDecodeError"
| "scanstring (c # cs) =
     (if c = DQ then Inr ([], cs)
      else if c = CHR 0x5C then
        (case cs of
           [] \<Rightarrow> Inl JSONDecodeError
         | e # r \<Rightarrow>
             if e = CHR ''u'' then
               (case r of
                  h1 # h2 # h3 # h4 # r' \<Rightarrow>
                    (case hex4 h1 h2 h3 h4 of
                       None \<Rightarrow> Inl JSONDecodeError
                     | Some n \<Rightarrow> if n < 256 then prepend (char_of n) (scanstring r')
                                else Inl Unmodelled)
                | _ \<Rightarrow> Inl JSONDecodeError)
             else
               (case unescape e of
                  None \<Rightarrow> Inl JSONDecodeError
                | Some ch \<Rightarrow> prepend ch (scanstring r)))
      else if (of_char c :: nat) < 32 then Inl JSONDecodeError
      else prepend c (scanstring cs))"

text \<open>
  The number pattern \<^verbatim>\<open>(-?(?:0|[1-9][0-9]*))(\.[0-9]+)?([eE][-+]?[0-9]+)?\<close>.
  \<open>match_integer\<close> is the first group: whether a minus sign came first, the digits,
  and the rest of the text. \<open>has_frac\<close> and \<open>has_exp\<close> tell whether the second or
  the third group matches at the rest.
\<close>

definition match_integer :: "string \<Rightarrow> (bool \<times> string \<times> string) option" where
  "match_integer s =
     (let neg = (case s of [] \<Rightarrow> False | c # _ \<Rightarrow> c = CHR ''-'');
          s1 = (if neg then tl s else s)
      in case s1 of
           [] \<Rightarrow> None
         | d # r \<Rightarrow>
             if d = CHR ''0'' then Some (neg, [d], r)
             else if is_digit d
               then Some (neg, d # takeWhile is_digit r, dropWhile is_digit r)
             else None)"

definition has_frac :: "string \<Rightarrow> bool" where
  "has_frac s = (case s of c # d # _ \<Rightarrow> c = CHR ''.'' \<and> is_digit d | _ \<Rightarrow> False)"

definition has_exp :: "string \<Rightarrow> bool" where
  "has_exp s =
     (case s of
        [] \<Rightarrow> False
      | c # r \<Rightarrow>
          (c = CHR ''e'' \<or> c = CHR ''E'') \<and>
          (case r of
             [] \<Rightarrow> False
           | d # r' \<Rightarrow>
               is_digit d \<or>
               ((d = CHR ''+'' \<or> d = CHR ''-'') \<and> (case r' of [] \<Rightarrow> False | x # _ \<Rightarrow> is_digit x))))"

definition digits_value :: "string \<Rightarrow> int" where
  "digits_value ds = foldl (\<lambda>a d. 10 * a + digit_val d) 0 ds"

definition dict_of_pairs :: "(string \<times> pyval) list \<Rightarrow> (string \<times> pyval) list" where
  "dict_of_pairs ps = foldl (\<lambda>d kv. AList.update (fst kv) (snd kv) d) [] ps"

text \<open>
  \<open>scan_once\<close> reads one value at the head of the text, \<open>JSONObject\<close> is the
  member loop of an object (entered just after the opening quote of a key),
  \<open>JSONArray\<close> the element loop of an array (entered at the start of an element).
  The first argument bounds the depth of the calls. \<open>json_loads\<close> passes more
  than twice the length of the text; with that much the bound is never used up
  (lemma \<open>json_loads_depth\<close>) and the result does not depend on it (lemma
  \<open>json_loads_fuel\<close>).
\<close>

fun scan_once :: "nat \<Rightarrow> string \<Rightarrow> error + (pyval \<times> string)"
  and JSONObject :: "nat \<Rightarrow> string \<Rightarrow> (string \<times> pyval) list \<Rightarrow> error + (pyval \<times> string)"
  and JSONArray :: "nat \<Rightarrow> string \<Rightarrow> pyval list \<Rightarrow> error + (pyval \<times> string)"
where
  "scan_once 0 s = Inl DepthExceeded"
| "scan_once (Suc n) [] = Inl JSONDecodeError"
| "scan_once (Suc n) (c # cs) =
     (if c = DQ then
        (case scanstring cs of Inl e \<Rightarrow> Inl e | Inr (str, rest) \<Rightarrow> Inr (PStr str, rest))
      else if c = CHR ''{'' then
        (case skip_ws cs of
           [] \<Rightarrow> Inl JSONDecodeError
         | d # r \<Rightarrow>
             if d = CHR ''}'' then Inr (PDict [], r)
             else if d = DQ then JSONObject n r []
             else Inl JSONDecodeError)
      else if c = CHR ''['' then
        (case skip_ws cs of
           [] \<Rightarrow> Inl JSONDecodeError
         | d # r \<Rightarrow>
             if d = CHR '']'' then Inr (PList [], r)
             else JSONArray n (d # r) [])
      else if startswith (c # cs) ''null'' then Inr (PNone, drop 4 (c # cs))
      else if startswith (c # cs) ''true'' then Inr (PBool True, drop 4 (c # cs))
      else if startswith (c # cs) ''false'' then Inr (PBool False, drop 5 (c # cs))
      else
        (case match_integer (c # cs) of
           Some (neg, ds, rest) \<Rightarrow>
             if has_frac rest \<or> has_exp rest then Inl Unmodelled
             else Inr (PInt (if neg then - digits_value ds else digits_value ds), rest)
         | None \<Rightarrow>
             if startswith (c # cs) ''NaN'' \<or> startswith (c # cs) ''Infinity''
                \<or> startswith (c # cs) ''-Infinity''
             then Inl Unmodelled
             else Inl JSONDecodeError))"
| "JSONObject 0 s pairs = Inl DepthExceeded"
| "JSONObject (Suc n) s pairs =
     (case scanstring s of
        Inl e \<Rightarrow> Inl e
      | Inr (key, r1) \<Rightarrow>
          (case skip_ws r1 of
             [] \<Rightarrow> Inl JSONDecodeError
           | c # r2 \<Rightarrow>
               if c \<noteq> CHR '':'' then Inl JSONDecodeError
               else
                 (case scan_once n (skip_ws r2) of
                    Inl e \<Rightarrow> Inl e
                  | Inr (v, r3) \<Rightarrow>
                      (case skip_ws r3 of
                         [] \<Rightarrow> Inl JSONDecodeError
                       | d # r4 \<Rightarrow>
                           if d = CHR ''}'' then Inr (PDict (dict_of_pairs (pairs @ [(key, v)])), r4)
                           else if d = CHR '','' then
                             (case skip_ws r4 of
                                [] \<Rightarrow> Inl JSONDecodeError
                              | q # r5 \<Rightarrow>
                                  if q = DQ then JSONObject n r5 (pairs @ [(key, v)])
                                  else Inl JSONDecodeError)
                           else Inl JSONDecodeError))))"
| "JSONArray 0 s vals = Inl DepthExceeded"
| "JSONArray (Suc n) s vals =
     (case scan_once n s of
        Inl e \<Rightarrow> Inl e
      | Inr (v, r1) \<Rightarrow>
          (case skip_ws r1 of
             [] \<Rightarrow> Inl JSONDecodeError
           | d # r2 \<Rightarrow>
               if d = CHR '']'' then Inr (PList (vals @ [v]), r2)
               else if d = CHR '','' then JSONArray n (skip_ws r2) (vals @ [v])
               else Inl JSONDecodeError))"

text \<open>\<^verbatim>\<open>json.loads(text)\<close>: one value, white space around it, and nothing else.\<close>

definition json_loads :: "string \<Rightarrow> error + pyval" where
  "json_loads text =
     (case scan_once (Suc (2 * length text)) (skip_ws text) of
        Inl e \<Rightarrow> Inl e
      | Inr (v, rest) \<Rightarrow> if skip_ws rest = [] then Inr v else Inl JSONDecodeError)"

section \<open>The type-string normalizer\<close>

text \<open>
  \<^verbatim>\<open>generate_sub_fields\<close> (lines 114-173). \<open>struct_field_literal\<close> is the body of
  the inner loop over the comma-separated pieces of a struct (lines 144-153),
  \<open>struct_fields_loop\<close> that loop with its accumulator \<^verbatim>\<open>fields\<close> (lines 143-155),
  \<open>rewrite_step\<close> one pass of the outer loop (lines 119-167) and \<open>rewrite_loop\<close> the
  outer loop.
\<close>

definition struct_field_literal :: "string \<Rightarrow> error + string" where
  "struct_field_literal field =
     (if count_char (CHR '':'') field = 1 then
        (case split_char (CHR '':'') field of
           a # b # _ \<Rightarrow> Inr (''{'Name': '' @ [SQ] @ a @ [SQ] @ ''|'Type': '' @ [SQ] @ b @ [SQ] @ ''}'')
         | _ \<Rightarrow> Inl IndexError)
      else
        (let name_position = find_char (CHR '':'') field;
             name = slice_to field name_position;
             new_field = slice_from field (name_position + 1)
         in Inr (''{'Name':'' @ [SQ] @ name @ [SQ] @ ''|'' @ new_field @ ''}'')))"

fun struct_fields_loop :: "string list \<Rightarrow> string \<Rightarrow> error + string" where
  "struct_fields_loop [] fields = Inr fields"
| "struct_fields_loop (field # rest) fields =
     (case struct_field_literal field of
        Inl e \<Rightarrow> Inl e
      | Inr fileds_to_add \<Rightarrow>
          struct_fields_loop rest
            (fields @ (if rest \<noteq> [] then fileds_to_add @ ''|'' else fileds_to_add)))"

definition rewrite_step :: "string \<Rightarrow> error + string" where
  "rewrite_step original_type_field =
     (let index_opening_sub_element = rfind_char (CHR ''<'') original_type_field;
          sub_text = slice_from original_type_field index_opening_sub_element;
          index_closing_sub_element = index_opening_sub_element + find_char (CHR ''>'') sub_text;
          content = slice original_type_field (index_opening_sub_element + 1) index_closing_sub_element;
          prev_content = slice_to original_type_field index_opening_sub_element;
          index_start_end_content = index_closing_sub_element + 1;
          end_content = slice_from original_type_field index_start_end_content
      in case findall_words prev_content of
           [] \<Rightarrow> Inl IndexError
         | w # ws \<Rightarrow>
             (let sub_content_type = last (w # ws)
              in if sub_content_type = ''struct'' then
                   (case struct_fields_loop (split_char (CHR '','') content) ''['' of
                      Inl e \<Rightarrow> Inl e
                    | Inr fields \<Rightarrow>
                        Inr (slice_to prev_content (- 6) @ [SQ] @ ''Type':'struct'|'Fields':''
                             @ fields @ '']'' @ end_content))
                 else if sub_content_type = ''array'' then
                   (if startswith content ([SQ] @ ''Type'' @ [SQ])
                    then Inr (slice_to prev_content (- 5) @ [SQ] @ ''Type':'array'|'Items':{''
                              @ content @ ''}'' @ end_content)
                    else Inr (slice_to prev_content (- 5) @ [SQ] @ ''Type':'array'|'Items':{'Type':''
                              @ [SQ] @ content @ [SQ] @ ''}'' @ end_content))
                 else Inr original_type_field))"

fun rewrite_loop :: "nat \<Rightarrow> string \<Rightarrow> error + string" where
  "rewrite_loop 0 s = Inr s"
| "rewrite_loop (Suc n) s =
     (case rewrite_step s of Inl e \<Rightarrow> Inl e | Inr s' \<Rightarrow> rewrite_loop n s')"

text \<open>Lines 169 and 171: the separators and quotes are replaced and the text is
  wrapped in one pair of braces.\<close>

definition json_text :: "string \<Rightarrow> string" where
  "json_text s = ''{'' @ replace_char SQ DQ (replace_char (CHR ''|'') (CHR '','') s) @ ''}''"

definition generate_sub_fields :: "string \<Rightarrow> error + pyval" where
  "generate_sub_fields original_type_field =
     (case rewrite_loop (count_char (CHR ''<'') original_type_field) original_type_field of
        Inl e \<Rightarrow> Inl e
      | Inr s \<Rightarrow> json_loads (json_text s))"

text \<open>
  The identifier that \<^verbatim>\<open>generate_sub_fields\<close> reads for the bracket at position
  \<open>q\<close> of a string (line 131): the last word before it, if there is one.
\<close>

definition preceding_identifier :: "string \<Rightarrow> nat \<Rightarrow> string option" where
  "preceding_identifier s q =
     (case findall_words (take q s) of [] \<Rightarrow> None | w # ws \<Rightarrow> Some (last (w # ws)))"

section \<open>The type-name mapper\<close>

text \<open>
  \<^verbatim>\<open>map_type_from_sql\<close> (lines 267-302). The argument is whatever
  \<^verbatim>\<open>field.get("Type")\<close> returned: \<^verbatim>\<open>None\<close> is passed through, a string goes down
  the chain of prefix tests, and any other value has no \<^verbatim>\<open>lower\<close> attribute.
\<close>

fun map_type_from_sql :: "pyval \<Rightarrow> error + string option" where
  "map_type_from_sql PNone = Inr None"
| "map_type_from_sql (PStr sql_type) = Inr (Some
     (if startswith (lower sql_type) ''varchar'' then ''varchar''
      else if startswith (lower sql_type) ''string'' then ''string''
      else if startswith (lower sql_type) ''text'' then ''text''
      else if startswith (lower sql_type) ''byte'' then ''byte''
      else if startswith (lower sql_type) ''short'' then ''short''
      else if startswith (lower sql_type) ''integer'' then ''integer''
      else if startswith (lower sql_type) ''long'' then ''long''
      else if startswith (lower sql_type) ''bigint'' then ''long''
      else if startswith (lower sql_type) ''float'' then ''float''
      else if startswith (lower sql_type) ''double'' then ''double''
      else if startswith (lower sql_type) ''boolean'' then ''boolean''
      else if startswith (lower sql_type) ''timestamp'' then ''timestamp''
      else if startswith (lower sql_type) ''date'' then ''date''
      else if startswith (lower sql_type) ''array'' then ''array''
      else if startswith (lower sql_type) ''struct'' then ''struct''
      else ''variant''))"
| "map_type_from_sql _ = Inl AttributeError"

text \<open>
  The mapper as the specification words it: an ordered table of prefixes and
  canonical names, matched case-insensitively, first match wins, \<open>variant\<close> otherwise.
\<close>

definition type_table :: "(string \<times> string) list" where
  "type_table =
     [(''varchar'', ''varchar''), (''string'', ''string''), (''text'', ''text''),
      (''byte'', ''byte''), (''short'', ''short''), (''integer'', ''integer''),
      (''long'', ''long''), (''bigint'', ''long''), (''float'', ''float''),
      (''double'', ''double''), (''boolean'', ''boolean''),
      (''timestamp'', ''timestamp''), (''date'', ''date''), (''array'', ''array''),
      (''struct'', ''struct'')]"

fun first_match :: "string \<Rightarrow> (string \<times> string) list \<Rightarrow> string" where
  "first_match s [] = ''variant''"
| "first_match s ((p, c) # t) = (if startswith s p then c else first_match s t)"

definition TypeNameMapper_spec :: "string option \<Rightarrow> string option" where
  "TypeNameMapper_spec x = map_option (\<lambda>s. first_match (lower s) type_table) x"

text \<open>A string has a recognized prefix when some row of the table matches it.\<close>

definition recognized :: "string \<Rightarrow> bool" where
  "recognized s = list_ex (\<lambda>pc. startswith (lower s) (fst pc)) type_table"

section \<open>Columns, fields and the field-tree builder\<close>

text \<open>
  A column record is a Python dictionary: the catalog's \<^verbatim>\<open>Name\<close>, \<^verbatim>\<open>Type\<close> and
  \<^verbatim>\<open>Comment\<close>, the key \<^verbatim>\<open>Hive\<close> that \<^verbatim>\<open>get_glue_table_schema\<close> sets on a
  partition key (lines 99-107), and the keys \<^verbatim>\<open>Items\<close> and \<^verbatim>\<open>Fields\<close> that
  \<^verbatim>\<open>format_schema\<close> adds. The nested records that \<^verbatim>\<open>json.loads\<close> returns are
  dictionaries of the same kind.
\<close>

text \<open>\<^verbatim>\<open>d.get(k)\<close> on a dictionary, and on any value (only a dictionary has \<^verbatim>\<open>get\<close>).\<close>

definition dict_get :: "(string \<times> pyval) list \<Rightarrow> string \<Rightarrow> pyval" where
  "dict_get d k = (case map_of d k of None \<Rightarrow> PNone | Some v \<Rightarrow> v)"

fun py_get :: "pyval \<Rightarrow> string \<Rightarrow> error + pyval" where
  "py_get (PDict d) k = Inr (dict_get d k)"
| "py_get _ k = Inl AttributeError"

text \<open>\<^verbatim>\<open>x[k]\<close> for a string key: a dictionary raises \<^verbatim>\<open>KeyError\<close> when the key is
  missing, and no other value of the model can be indexed by a string.\<close>

fun py_getitem :: "pyval \<Rightarrow> string \<Rightarrow> error + pyval" where
  "py_getitem (PDict d) k = (case map_of d k of None \<Rightarrow> Inl KeyError | Some v \<Rightarrow> Inr v)"
| "py_getitem _ k = Inl TypeError"

text \<open>The truth value of \<^verbatim>\<open>if x:\<close>.\<close>

fun truthy :: "pyval \<Rightarrow> bool" where
  "truthy PNone = False"
| "truthy (PBool b) = b"
| "truthy (PInt i) = (i \<noteq> 0)"
| "truthy (PStr s) = (s \<noteq> [])"
| "truthy (PList xs) = (xs \<noteq> [])"
| "truthy (PDict d) = (d \<noteq> [])"

text \<open>
  The keys of the dictionary that \<^verbatim>\<open>import_record_fields\<close> builds are whatever
  \<^verbatim>\<open>field.get("Name")\<close> returns. \<^verbatim>\<open>True\<close> and \<^verbatim>\<open>1\<close> (and \<^verbatim>\<open>False\<close> and \<^verbatim>\<open>0\<close>)
  are the same key; a list or a dictionary is not hashable.
\<close>

datatype pykey = KNone | KInt int | KStr string

fun hash_key :: "pyval \<Rightarrow> error + pykey" where
  "hash_key PNone = Inr KNone"
| "hash_key (PBool b) = Inr (KInt (if b then 1 else 0))"
| "hash_key (PInt i) = Inr (KInt i)"
| "hash_key (PStr s) = Inr (KStr s)"
| "hash_key (PList xs) = Inl TypeError"
| "hash_key (PDict d) = Inl TypeError"

text \<open>
  Modelled from the spec: the class \<^verbatim>\<open>Field\<close> is declared in
  \<^verbatim>\<open>datacontract/model/data_contract_specification.py\<close>, which is not among the
  sources. The specification gives it a type, a required flag, a description, a
  mapping \<^verbatim>\<open>fields\<close> and a child \<^verbatim>\<open>items\<close>, the last two present only for a struct
  and an array; so every attribute of \<^verbatim>\<open>Field()\<close> starts absent (\<open>None\<close>,
  \<open>PNone\<close>, \<open>NoFields\<close>) and keeps that value until the importer assigns it.
  Python lets the importer store any object in an attribute, so \<^verbatim>\<open>fields\<close> holds
  either nothing, a dictionary of fields, or a single field.
\<close>

datatype field =
  Field (ftype: "string option") (required: "bool option") (description: pyval)
        (fields: fields_slot) (items: "field option")
and fields_slot =
    NoFields
  | FieldsDict "(pykey \<times> field) list"
  | FieldsObj field

lemma list_size_PList:
  "size_list size xs < size (PList xs)"
  by simp

lemma dict_get_size:
  "size (dict_get d k) < size (PDict d)"
  by (induction d) (auto simp: dict_get_def)

text \<open>
  \<^verbatim>\<open>import_record_fields\<close> (lines 190-216) and \<^verbatim>\<open>import_array_field\<close> (lines
  219-232). \<open>import_record_loop\<close> is the \<^verbatim>\<open>for\<close> loop with its accumulator
  \<^verbatim>\<open>imported_fields\<close>, and \<open>import_record_field\<close> the loop body (lines 194-214),
  which returns the key and the field that line 214 stores. Iterating over
  something that is not a list either raises or, for a non-empty string or
  dictionary, yields strings, which have no \<^verbatim>\<open>get\<close>.
\<close>

function (sequential) import_record_fields :: "pyval \<Rightarrow> error + (pykey \<times> field) list"
  and import_record_loop :: "pyval list \<Rightarrow> (pykey \<times> field) list \<Rightarrow> error + (pykey \<times> field) list"
  and import_record_field :: "pyval \<Rightarrow> error + (pykey \<times> field)"
  and import_array_field :: "pyval \<Rightarrow> error + field"
where
  "import_record_fields (PList record_fields) = import_record_loop record_fields []"
| "import_record_fields (PStr s) = (if s = [] then Inr [] else Inl AttributeError)"
| "import_record_fields (PDict d) = (if d = [] then Inr [] else Inl AttributeError)"
| "import_record_fields PNone = Inl TypeError"
| "import_record_fields (PBool b) = Inl TypeError"
| "import_record_fields (PInt i) = Inl TypeError"
| "import_record_loop [] imported_fields = Inr imported_fields"
| "import_record_loop (field # rest) imported_fields =
     (case import_record_field field of
        Inl e \<Rightarrow> Inl e
      | Inr (name, imported_field) \<Rightarrow>
          import_record_loop rest (AList.update name imported_field imported_fields))"
| "import_record_field (PDict d) =
     (case map_type_from_sql (dict_get d ''Type'') of
        Inl e \<Rightarrow> Inl e
      | Inr field_type \<Rightarrow>
          (let req = Some (truthy (dict_get d ''Hive''));
               descr = dict_get d ''Comment''
           in case
                (if field_type = Some ''struct'' then
                   (case import_record_fields (dict_get d ''Fields'') of
                      Inl e \<Rightarrow> Inl e
                    | Inr fs \<Rightarrow> Inr (Field field_type req descr (FieldsDict fs) None))
                 else if field_type = Some ''array'' then
                   (case import_array_field (dict_get d ''Items'') of
                      Inl e \<Rightarrow> Inl e
                    | Inr it \<Rightarrow> Inr (Field field_type req descr NoFields (Some it)))
                 else Inr (Field field_type req descr NoFields None))
              of
                Inl e \<Rightarrow> Inl e
              | Inr imported_field \<Rightarrow>
                  (case hash_key (dict_get d ''Name'') of
                     Inl e \<Rightarrow> Inl e
                   | Inr name \<Rightarrow> Inr (name, imported_field))))"
| "import_record_field _ = Inl AttributeError"
| "import_array_field (PDict d) =
     (case map_type_from_sql (dict_get d ''Type'') of
        Inl e \<Rightarrow> Inl e
      | Inr field_type \<Rightarrow>
          (if field_type = Some ''struct'' then
             (case import_record_fields (dict_get d ''Fields'') of
                Inl e \<Rightarrow> Inl e
              | Inr fs \<Rightarrow> Inr (Field field_type None PNone (FieldsDict fs) None))
           else if field_type = Some ''array'' then
             (case import_array_field (dict_get d ''Items'') of
                Inl e \<Rightarrow> Inl e
              | Inr it \<Rightarrow> Inr (Field field_type None PNone (FieldsObj it) None))
           else Inr (Field field_type None PNone NoFields None)))"
| "import_array_field _ = Inl AttributeError"
  by pat_completeness auto
termination
  by (relation "measure (case_sum (case_sum size (\<lambda>p. size_list size (fst p))) (case_sum size size))")
     (auto simp: dict_get_size list_size_PList simp del: pyval.size)

section \<open>Merging the parsed type back into the column\<close>

text \<open>
  \<^verbatim>\<open>format_schema\<close> (lines 176-187) updates every column dictionary in place;
  the model returns the updated list. \<open>format_column\<close> is the loop body. Assigning
  to a key that the dictionary has keeps the key's position; a new key goes to the
  end. When a column raises, the exception leaves the loop and no schema is
  returned.
\<close>

definition format_column :: "pyval \<Rightarrow> error + pyval" where
  "format_column column =
     (case py_getitem column ''Type'' of
        Inl e \<Rightarrow> Inl e
      | Inr (PStr t) \<Rightarrow>
          (case column of
             PDict d \<Rightarrow>
               if startswith t ''array<'' then
                 (case generate_sub_fields t of
                    Inl e \<Rightarrow> Inl e
                  | Inr r \<Rightarrow>
                      (case py_getitem r ''Items'' of
                         Inl e \<Rightarrow> Inl e
                       | Inr its \<Rightarrow>
                           Inr (PDict (AList.update ''Type'' (PStr ''array'')
                                         (AList.update ''Items'' its d)))))
               else if startswith t ''struct<'' then
                 (case generate_sub_fields t of
                    Inl e \<Rightarrow> Inl e
                  | Inr r \<Rightarrow>
                      (case py_getitem r ''Fields'' of
                         Inl e \<Rightarrow> Inl e
                       | Inr fs \<Rightarrow>
                           Inr (PDict (AList.update ''Type'' (PStr ''struct'')
                                         (AList.update ''Fields'' fs d)))))
               else Inr column
           | _ \<Rightarrow> Inl TypeError)
      | Inr _ \<Rightarrow> Inl AttributeError)"

fun format_schema :: "pyval list \<Rightarrow> error + pyval list" where
  "format_schema [] = Inr []"
| "format_schema (column # rest) =
     (case format_column column of
        Inl e \<Rightarrow> Inl e
      | Inr column' \<Rightarrow>
          (case format_schema rest of
             Inl e \<Rightarrow> Inl e
           | Inr rest' \<Rightarrow> Inr (column' # rest')))"

text \<open>
  The two calls that take a table's columns to its fields:
  \<^verbatim>\<open>format_schema(table_schema)\<close> at the end of \<^verbatim>\<open>get_glue_table_schema\<close> (line
  109) and \<^verbatim>\<open>import_record_fields(table_schema)\<close> in \<^verbatim>\<open>import_glue\<close> (line 257).
  Neither caller catches an exception.
\<close>

definition import_table :: "pyval list \<Rightarrow> error + (pykey \<times> field) list" where
  "import_table columns =
     (case format_schema columns of
        Inl e \<Rightarrow> Inl e
      | Inr schema \<Rightarrow> import_record_fields (PList schema))"

text \<open>The record that \<^verbatim>\<open>get_glue_table_schema\<close> appends for a partition key
  (lines 100-107), and a plain column with a name and a type.\<close>

definition partition_column :: "string \<Rightarrow> string \<Rightarrow> pyval" where
  "partition_column name t =
     PDict [(''Name'', PStr name), (''Type'', PStr t), (''Hive'', PBool True),
            (''Comment'', PStr ''Partition Key'')]"

definition plain_column :: "string \<Rightarrow> string \<Rightarrow> pyval" where
  "plain_column name t = PDict [(''Name'', PStr name), (''Type'', PStr t)]"

text \<open>The dictionary key under which \<^verbatim>\<open>import_record_fields\<close> stores a record
  (line 214): the hash key of \<^verbatim>\<open>field.get("Name")\<close>.\<close>

definition column_key :: "pyval \<Rightarrow> error + pykey" where
  "column_key c = (case py_get c ''Name'' of Inl e \<Rightarrow> Inl e | Inr v \<Rightarrow> hash_key v)"





section \<open>Where a text names a metadata key\<close>

text \<open>
  The normalizer writes the records of a nested type as text, and \<^verbatim>\<open>json.loads\<close>
  reads them back. \<^verbatim>\<open>import_record_fields\<close> takes \<^verbatim>\<open>required\<close> and
  \<^verbatim>\<open>description\<close> of a record from its keys \<^verbatim>\<open>Hive\<close> and \<^verbatim>\<open>Comment\<close>, so what
  matters is whether that text can hold one of these two words as a key: the word,
  a closing quote, white space and a colon. \<open>kstep\<close> is one step of a scanner for
  this pattern and \<open>krun\<close> runs it over a text. Either quote character closes the
  word, because the normalizer writes single quotes and replaces them by double
  quotes before the text is read. The scanner stays in \<open>Found\<close> once the pattern
  has occurred; a text is \<open>clean\<close> when the scanner, started idle, does not get
  there.
\<close>

datatype kstate =
    Idle | AfterH | AfterHi | AfterHiv | AfterC | AfterCo | AfterCom | AfterComm | AfterComme | AfterCommen | AfterWord | AfterQuote | Found

definition kstep :: "kstate \<Rightarrow> char \<Rightarrow> kstate" where
  "kstep q c =
     (if q = Found then Found
      else if q = AfterQuote \<and> is_json_ws c then AfterQuote
      else if q = AfterQuote \<and> c = CHR '':'' then Found
      else if q = AfterWord \<and> (c = SQ \<or> c = DQ) then AfterQuote
      else if q = AfterH \<and> c = CHR ''i'' then AfterHi
      else if q = AfterHi \<and> c = CHR ''v'' then AfterHiv
      else if q = AfterHiv \<and> c = CHR ''e'' then AfterWord
      else if q = AfterC \<and> c = CHR ''o'' then AfterCo
      else if q = AfterCo \<and> c = CHR ''m'' then AfterCom
      else if q = AfterCom \<and> c = CHR ''m'' then AfterComm
      else if q = AfterComm \<and> c = CHR ''e'' then AfterComme
      else if q = AfterComme \<and> c = CHR ''n'' then AfterCommen
      else if q = AfterCommen \<and> c = CHR ''t'' then AfterWord
      else if c = CHR ''H'' then AfterH
      else if c = CHR ''C'' then AfterC
      else Idle)"

definition krun :: "kstate \<Rightarrow> string \<Rightarrow> kstate" where
  "krun q s = foldl kstep q s"










section \<open>Reading a result\<close>

text \<open>
  Observers for stating what a result holds: the field stored under a string key
  of a returned mapping, the member of a struct field under a name, the
  \<^verbatim>\<open>items\<close> child, and the attributes of the field reached.
\<close>

definition top :: "string \<Rightarrow> error + (pykey \<times> field) list \<Rightarrow> field option" where
  "top name r = (case r of Inl e \<Rightarrow> None | Inr m \<Rightarrow> map_of m (KStr name))"

definition member :: "string \<Rightarrow> field option \<Rightarrow> field option" where
  "member name f =
     (case f of
        None \<Rightarrow> None
      | Some g \<Rightarrow> (case fields g of FieldsDict m \<Rightarrow> map_of m (KStr name) | _ \<Rightarrow> None))"

definition item :: "field option \<Rightarrow> field option" where
  "item f = (case f of None \<Rightarrow> None | Some g \<Rightarrow> items g)"

definition type_of :: "field option \<Rightarrow> string option" where
  "type_of f = (case f of None \<Rightarrow> None | Some g \<Rightarrow> ftype g)"



section \<open>The JSON reader never uses up its bound\<close>

text \<open>
  Every successful call of the reader returns a rest that is shorter than its
  input, so a bound above twice the length of the text is never used up, and
  the result of \<open>json_loads\<close> is the same for every larger bound.
\<close>

lemma skip_ws_length: "length (skip_ws s) \<le> length s"
  by (simp add: skip_ws_def length_dropWhile_le)

lemma skip_ws_Cons: "skip_ws s = d # r \<Longrightarrow> length r < length s"
  using skip_ws_length [of s] by simp

lemma prepend_rest: "prepend c x = Inr (k, r) \<Longrightarrow> \<exists>k'. x = Inr (k', r)"
  by (auto simp: prepend_def split: sum.splits)

lemma scanstring_rest: "scanstring s = Inr (k, r) \<Longrightarrow> length r < length s"
proof (induction s arbitrary: k rule: scanstring.induct)
  case 1
  then show ?case by simp
next
  case (2 c cs)
  show ?case
  proof (cases "c = DQ")
    case True
    with "2.prems" show ?thesis by simp
  next
    case nq: False
    show ?thesis
    proof (cases "c = CHR 0x5C")
      case bs: True
      from "2.prems" nq bs obtain e r0 where cs: "cs = e # r0"
        by (cases cs) auto
      show ?thesis
      proof (cases "e = CHR ''u''")
        case u: True
        from "2.prems" nq bs cs u obtain h1 h2 h3 h4 r' where r0: "r0 = h1 # h2 # h3 # h4 # r'"
          by (auto split: list.splits)
        from "2.prems" nq bs cs u r0 obtain n where n: "hex4 h1 h2 h3 h4 = Some n" "n < 256"
          by (auto split: option.splits if_splits)
        with "2.prems" nq bs cs u r0 have "prepend (char_of n) (scanstring r') = Inr (k, r)" by simp
        from prepend_rest [OF this] obtain k' where k': "scanstring r' = Inr (k', r)" ..
        from "2.IH"(1) [OF nq bs cs u r0 refl refl refl n(1) n(2) k'] cs r0 show ?thesis by simp
      next
        case nu: False
        from "2.prems" nq bs cs nu obtain ch where ch: "unescape e = Some ch"
          by (auto split: option.splits)
        with "2.prems" nq bs cs nu have "prepend ch (scanstring r0) = Inr (k, r)" by simp
        from prepend_rest [OF this] obtain k' where k': "scanstring r0 = Inr (k', r)" ..
        from "2.IH"(2) [OF nq bs cs nu ch k'] cs show ?thesis by simp
      qed
    next
      case nbs: False
      from "2.prems" nq nbs have ctl: "\<not> (of_char c :: nat) < 32" by (auto split: if_splits)
      with "2.prems" nq nbs have "prepend c (scanstring cs) = Inr (k, r)" by simp
      from prepend_rest [OF this] obtain k' where k': "scanstring cs = Inr (k', r)" ..
      from "2.IH"(3) [OF nq nbs ctl k'] show ?thesis by simp
    qed
  qed
qed

lemma match_integer_rest: "match_integer s = Some (neg, ds, r) \<Longrightarrow> length r < length s"
proof -
  assume a: "match_integer s = Some (neg, ds, r)"
  have d: "length (dropWhile is_digit x) \<le> length x" for x by (rule length_dropWhile_le)
  show ?thesis
  proof (cases s)
    case Nil
    with a show ?thesis by (simp add: match_integer_def)
  next
    case (Cons c cs)
    show ?thesis
    proof (cases "c = CHR ''-''")
      case True
      with a Cons show ?thesis
        using d [of "tl cs"]
        by (cases cs) (auto simp: match_integer_def Let_def le_imp_less_Suc split: if_splits)
    next
      case False
      with a Cons show ?thesis
        using d [of cs]
        by (auto simp: match_integer_def Let_def le_imp_less_Suc split: if_splits)
    qed
  qed
qed

lemma startswith_drop: "startswith s p \<Longrightarrow> p \<noteq> [] \<Longrightarrow> length (drop (length p) s) < length s"
  by (cases s) (auto simp: startswith_def)

lemma scan_rest:
  "(\<forall>s v r. scan_once n s = Inr (v, r) \<longrightarrow> length r < length s)
   \<and> (\<forall>s ps v r. JSONObject n s ps = Inr (v, r) \<longrightarrow> length r < length s)
   \<and> (\<forall>s vs v r. JSONArray n s vs = Inr (v, r) \<longrightarrow> length r < length s)"
proof (induction n)
  case 0
  then show ?case by simp
next
  case (Suc n)
  from Suc.IH have ih_once: "\<And>s v r. scan_once n s = Inr (v, r) \<Longrightarrow> length r < length s"
    and ih_obj: "\<And>s ps v r. JSONObject n s ps = Inr (v, r) \<Longrightarrow> length r < length s"
    and ih_arr: "\<And>s vs v r. JSONArray n s vs = Inr (v, r) \<Longrightarrow> length r < length s"
    by blast+
  have once: "length r < length s" if a: "scan_once (Suc n) s = Inr (v, r)" for s v r
  proof (cases s)
    case Nil
    with a show ?thesis by simp
  next
    case (Cons c cs)
    consider (str) "c = DQ" | (obj) "c \<noteq> DQ" "c = CHR ''{''"
      | (arr) "c \<noteq> DQ" "c \<noteq> CHR ''{''" "c = CHR ''[''"
      | (other) "c \<noteq> DQ" "c \<noteq> CHR ''{''" "c \<noteq> CHR ''[''" by blast
    then show ?thesis
    proof cases
      case str
      with a Cons obtain k where "scanstring cs = Inr (k, r)"
        by (auto split: sum.splits)
      from scanstring_rest [OF this] Cons show ?thesis by simp
    next
      case obj
      with a Cons obtain d r0 where sk: "skip_ws cs = d # r0"
        by (cases "skip_ws cs") auto
      from skip_ws_Cons [OF sk] have l: "length r0 < length cs" .
      from a Cons obj sk have "r = r0 \<or> JSONObject n r0 [] = Inr (v, r)"
        by (auto split: if_splits)
      with l ih_obj [of r0 "[]" v r] Cons show ?thesis by auto
    next
      case arr
      with a Cons obtain d r0 where sk: "skip_ws cs = d # r0"
        by (cases "skip_ws cs") auto
      from skip_ws_Cons [OF sk] have l: "length r0 < length cs" .
      from a Cons arr sk have "r = r0 \<or> JSONArray n (d # r0) [] = Inr (v, r)"
        by (auto split: if_splits)
      with l ih_arr [of "d # r0" "[]" v r] Cons show ?thesis by auto
    next
      case other
      with a Cons have "length r < length s \<or> (\<exists>neg ds. match_integer s = Some (neg, ds, r))"
        by (auto split: if_splits option.splits)
      then show ?thesis
        using match_integer_rest [of s] by blast
    qed
  qed
  have obj: "length r < length s" if a: "JSONObject (Suc n) s ps = Inr (v, r)" for s ps v r
  proof -
    from a obtain key r1 where k: "scanstring s = Inr (key, r1)"
      by (cases "scanstring s") auto
    from a k obtain c r2 where s1: "skip_ws r1 = c # r2"
      by (cases "skip_ws r1") auto
    from a k s1 have col: "c = CHR '':''" by (auto split: if_splits)
    from a k s1 col obtain v' r3 where sc: "scan_once n (skip_ws r2) = Inr (v', r3)"
      by (cases "scan_once n (skip_ws r2)") auto
    from a k s1 col sc obtain d r4 where s3: "skip_ws r3 = d # r4"
      by (cases "skip_ws r3") auto
    have l: "length r4 < length s"
      using scanstring_rest [OF k] skip_ws_Cons [OF s1] ih_once [OF sc] skip_ws_length [of r2]
        skip_ws_Cons [OF s3] by linarith
    show ?thesis
    proof (cases "d = CHR ''}''")
      case True
      with a k s1 col sc s3 l show ?thesis by simp
    next
      case False
      with a k s1 col sc s3 have com: "d = CHR '',''" by (auto split: if_splits)
      with a k s1 col sc s3 False obtain q r5 where s4: "skip_ws r4 = q # r5"
        by (cases "skip_ws r4") auto
      with a k s1 col sc s3 False com have "JSONObject n r5 (ps @ [(key, v')]) = Inr (v, r)"
        by (auto split: if_splits)
      from ih_obj [OF this] skip_ws_Cons [OF s4] l show ?thesis by linarith
    qed
  qed
  have arr: "length r < length s" if a: "JSONArray (Suc n) s vs = Inr (v, r)" for s vs v r
  proof -
    from a obtain v' r1 where sc: "scan_once n s = Inr (v', r1)"
      by (cases "scan_once n s") auto
    from a sc obtain d r2 where s1: "skip_ws r1 = d # r2"
      by (cases "skip_ws r1") auto
    have l: "length r2 < length s"
      using ih_once [OF sc] skip_ws_Cons [OF s1] by linarith
    show ?thesis
    proof (cases "d = CHR '']''")
      case True
      with a sc s1 l show ?thesis by simp
    next
      case False
      with a sc s1 have "JSONArray n (skip_ws r2) (vs @ [v']) = Inr (v, r)"
        by (auto split: if_splits)
      from ih_arr [OF this] skip_ws_length [of r2] l show ?thesis by linarith
    qed
  qed
  from once obj arr show ?case by blast
qed

lemma scan_once_rest: "scan_once n s = Inr (v, r) \<Longrightarrow> length r < length s"
  using scan_rest [of n] by blast

lemma scan_fuel:
  "(\<forall>m s. 2 * length s < n \<and> 2 * length s < m \<longrightarrow> scan_once n s = scan_once m s)
   \<and> (\<forall>m s ps. 2 * length s + 1 < n \<and> 2 * length s + 1 < m \<longrightarrow>
         JSONObject n s ps = JSONObject m s ps)
   \<and> (\<forall>m s vs. 2 * length s + 1 < n \<and> 2 * length s + 1 < m \<longrightarrow>
         JSONArray n s vs = JSONArray m s vs)"
proof (induction n)
  case 0
  then show ?case by simp
next
  case (Suc n)
  from Suc.IH have ih_once:
    "\<And>m s. 2 * length s < n \<Longrightarrow> 2 * length s < m \<Longrightarrow> scan_once n s = scan_once m s"
    and ih_obj: "\<And>m s ps. 2 * length s + 1 < n \<Longrightarrow> 2 * length s + 1 < m \<Longrightarrow>
      JSONObject n s ps = JSONObject m s ps"
    and ih_arr: "\<And>m s vs. 2 * length s + 1 < n \<Longrightarrow> 2 * length s + 1 < m \<Longrightarrow>
      JSONArray n s vs = JSONArray m s vs"
    by blast+
  have once: "scan_once (Suc n) s = scan_once m s"
    if a: "2 * length s < Suc n" "2 * length s < m" for m s
  proof -
    from a(2) obtain m' where m: "m = Suc m'" by (cases m) auto
    show ?thesis
    proof (cases s)
      case Nil
      with m show ?thesis by simp
    next
      case (Cons c cs)
      show ?thesis
      proof (cases "skip_ws cs")
        case Nil
        with Cons m show ?thesis by simp
      next
        case sk: (Cons d r)
        from skip_ws_Cons [OF sk] a Cons m
        have l: "2 * length r + 1 < n" "2 * length r + 1 < m'"
          "2 * length (d # r) + 1 < n" "2 * length (d # r) + 1 < m'"
          by simp_all
        from ih_obj [OF l(1,2)] ih_arr [OF l(3,4)] Cons sk m show ?thesis by simp
      qed
    qed
  qed
  have obj: "JSONObject (Suc n) s ps = JSONObject m s ps"
    if a: "2 * length s + 1 < Suc n" "2 * length s + 1 < m" for m s ps
  proof -
    from a(2) obtain m' where m: "m = Suc m'" by (cases m) auto
    show ?thesis
    proof (cases "scanstring s")
      case (Inl e)
      with m show ?thesis by simp
    next
      case (Inr kr)
      obtain key r1 where kr: "kr = (key, r1)" by (cases kr)
      note k = Inr [unfolded kr]
      show ?thesis
      proof (cases "skip_ws r1")
        case Nil
        with k m show ?thesis by simp
      next
        case s1: (Cons c r2)
        have l2: "length (skip_ws r2) + 2 \<le> length s"
          using scanstring_rest [OF k] skip_ws_Cons [OF s1] skip_ws_length [of r2] by linarith
        with a m have "2 * length (skip_ws r2) < n" "2 * length (skip_ws r2) < m'" by simp_all
        from ih_once [OF this] have eq1: "scan_once n (skip_ws r2) = scan_once m' (skip_ws r2)" .
        show ?thesis
        proof (cases "scan_once m' (skip_ws r2)")
          case (Inl e)
          with k s1 eq1 m show ?thesis by simp
        next
          case (Inr vr)
          obtain v r3 where vr: "vr = (v, r3)" by (cases vr)
          note sc = Inr [unfolded vr]
          show ?thesis
          proof (cases "skip_ws r3")
            case Nil
            with k s1 eq1 sc m show ?thesis by simp
          next
            case s3: (Cons d r4)
            show ?thesis
            proof (cases "skip_ws r4")
              case Nil
              with k s1 eq1 sc s3 m show ?thesis by simp
            next
              case s4: (Cons q r5)
              have "length r5 + 4 \<le> length s"
                using l2 scan_once_rest [OF sc] skip_ws_Cons [OF s3] skip_ws_Cons [OF s4]
                by linarith
              with a m have "2 * length r5 + 1 < n" "2 * length r5 + 1 < m'" by simp_all
              from ih_obj [OF this] k s1 eq1 sc s3 s4 m show ?thesis by simp
            qed
          qed
        qed
      qed
    qed
  qed
  have arr: "JSONArray (Suc n) s vs = JSONArray m s vs"
    if a: "2 * length s + 1 < Suc n" "2 * length s + 1 < m" for m s vs
  proof -
    from a(2) obtain m' where m: "m = Suc m'" by (cases m) auto
    from a m have "2 * length s < n" "2 * length s < m'" by simp_all
    from ih_once [OF this] have eq1: "scan_once n s = scan_once m' s" .
    show ?thesis
    proof (cases "scan_once m' s")
      case (Inl e)
      with eq1 m show ?thesis by simp
    next
      case (Inr vr)
      obtain v r1 where vr: "vr = (v, r1)" by (cases vr)
      note sc = Inr [unfolded vr]
      show ?thesis
      proof (cases "skip_ws r1")
        case Nil
        with eq1 sc m show ?thesis by simp
      next
        case s1: (Cons d r2)
        have "length (skip_ws r2) + 2 \<le> length s"
          using scan_once_rest [OF sc] skip_ws_Cons [OF s1] skip_ws_length [of r2] by linarith
        with a m have "2 * length (skip_ws r2) + 1 < n" "2 * length (skip_ws r2) + 1 < m'"
          by simp_all
        from ih_arr [OF this] eq1 sc s1 m show ?thesis by simp
      qed
    qed
  qed
  from once obj arr show ?case by blast
qed

lemma json_loads_fuel:
  "2 * length jt < m \<Longrightarrow>
   json_loads jt =
     (case scan_once m (skip_ws jt) of
        Inl e \<Rightarrow> Inl e
      | Inr (v, rest) \<Rightarrow> if skip_ws rest = [] then Inr v else Inl JSONDecodeError)"
proof -
  assume m: "2 * length jt < m"
  have "2 * length (skip_ws jt) < Suc (2 * length jt)" "2 * length (skip_ws jt) < m"
    using skip_ws_length [of jt] m by simp_all
  with scan_fuel [of "Suc (2 * length jt)"]
  have "scan_once (Suc (2 * length jt)) (skip_ws jt) = scan_once m (skip_ws jt)" by blast
  then show ?thesis by (simp add: json_loads_def)
qed

lemma prepend_Inl: "(prepend c x = Inl e) = (x = Inl e)"
  by (auto simp: prepend_def split: sum.splits)

lemma scanstring_depth: "scanstring s \<noteq> Inl DepthExceeded"
proof (induction s rule: scanstring.induct)
  case 1
  then show ?case by simp
next
  case (2 c cs)
  show ?case
  proof (cases cs)
    case Nil
    with "2.IH"(3) show ?thesis by (auto simp: prepend_Inl)
  next
    case (Cons e r)
    show ?thesis
    proof (cases "c = DQ \<or> c \<noteq> CHR 0x5C")
      case True
      with "2.IH"(3) show ?thesis by (auto simp: prepend_Inl)
    next
      case False
      then have c: "c \<noteq> DQ" "c = CHR 0x5C" by auto
      show ?thesis
      proof (cases "e = CHR ''u''")
        case u: True
        with c Cons "2.IH"(1) show ?thesis
          by (auto simp: prepend_Inl split: list.splits option.splits)
      next
        case False
        with c Cons "2.IH"(2) show ?thesis
          by (auto simp: prepend_Inl split: option.splits)
      qed
    qed
  qed
qed

lemma scan_depth:
  "(\<forall>s. 2 * length s < n \<longrightarrow> scan_once n s \<noteq> Inl DepthExceeded)
   \<and> (\<forall>s ps. 2 * length s + 1 < n \<longrightarrow> JSONObject n s ps \<noteq> Inl DepthExceeded)
   \<and> (\<forall>s vs. 2 * length s + 1 < n \<longrightarrow> JSONArray n s vs \<noteq> Inl DepthExceeded)"
proof (induction n)
  case 0
  then show ?case by simp
next
  case (Suc n)
  from Suc.IH have ih_once: "\<And>s. 2 * length s < n \<Longrightarrow> scan_once n s \<noteq> Inl DepthExceeded"
    and ih_obj: "\<And>s ps. 2 * length s + 1 < n \<Longrightarrow> JSONObject n s ps \<noteq> Inl DepthExceeded"
    and ih_arr: "\<And>s vs. 2 * length s + 1 < n \<Longrightarrow> JSONArray n s vs \<noteq> Inl DepthExceeded"
    by blast+
  have once: "scan_once (Suc n) s \<noteq> Inl DepthExceeded" if a: "2 * length s < Suc n" for s
  proof (cases s)
    case Nil
    then show ?thesis by simp
  next
    case (Cons c cs)
    show ?thesis
    proof (cases "skip_ws cs")
      case Nil
      with Cons scanstring_depth [of cs] show ?thesis
        by (auto split: sum.splits option.splits)
    next
      case sk: (Cons d r)
      from skip_ws_Cons [OF sk] a Cons
      have "2 * length r + 1 < n" "2 * length (d # r) + 1 < n" by simp_all
      from ih_obj [OF this(1), of "[]"] ih_arr [OF this(2), of "[]"] Cons sk scanstring_depth [of cs]
      show ?thesis
        by (auto split: sum.splits option.splits)
    qed
  qed
  have obj: "JSONObject (Suc n) s ps \<noteq> Inl DepthExceeded" if a: "2 * length s + 1 < Suc n" for s ps
  proof (cases "scanstring s")
    case (Inl e)
    with scanstring_depth [of s] show ?thesis by simp
  next
    case (Inr kr)
    obtain key r1 where kr: "kr = (key, r1)" by (cases kr)
    note k = Inr [unfolded kr]
    show ?thesis
    proof (cases "skip_ws r1")
      case Nil
      with k show ?thesis by simp
    next
      case s1: (Cons c r2)
      have l2: "length (skip_ws r2) + 2 \<le> length s"
        using scanstring_rest [OF k] skip_ws_Cons [OF s1] skip_ws_length [of r2] by linarith
      with a have "2 * length (skip_ws r2) < n" by simp
      from ih_once [OF this] have ne: "scan_once n (skip_ws r2) \<noteq> Inl DepthExceeded" .
      show ?thesis
      proof (cases "scan_once n (skip_ws r2)")
        case (Inl e)
        with k s1 ne show ?thesis by simp
      next
        case (Inr vr)
        obtain v r3 where vr: "vr = (v, r3)" by (cases vr)
        note sc = Inr [unfolded vr]
        show ?thesis
        proof (cases "skip_ws r3")
          case Nil
          with k s1 sc show ?thesis by simp
        next
          case s3: (Cons d r4)
          show ?thesis
          proof (cases "skip_ws r4")
            case Nil
            with k s1 sc s3 show ?thesis by simp
          next
            case s4: (Cons q r5)
            have "length r5 + 4 \<le> length s"
              using l2 scan_once_rest [OF sc] skip_ws_Cons [OF s3] skip_ws_Cons [OF s4]
              by linarith
            with a have "2 * length r5 + 1 < n" by simp
            from ih_obj [OF this] k s1 sc s3 s4 show ?thesis by simp
          qed
        qed
      qed
    qed
  qed
  have arr: "JSONArray (Suc n) s vs \<noteq> Inl DepthExceeded" if a: "2 * length s + 1 < Suc n" for s vs
  proof -
    from a have "2 * length s < n" by simp
    from ih_once [OF this] have ne: "scan_once n s \<noteq> Inl DepthExceeded" .
    show ?thesis
    proof (cases "scan_once n s")
      case (Inl e)
      with ne show ?thesis by simp
    next
      case (Inr vr)
      obtain v r1 where vr: "vr = (v, r1)" by (cases vr)
      note sc = Inr [unfolded vr]
      show ?thesis
      proof (cases "skip_ws r1")
        case Nil
        with sc show ?thesis by simp
      next
        case s1: (Cons d r2)
        have "length (skip_ws r2) + 2 \<le> length s"
          using scan_once_rest [OF sc] skip_ws_Cons [OF s1] skip_ws_length [of r2] by linarith
        with a have "2 * length (skip_ws r2) + 1 < n" by simp
        from ih_arr [OF this] sc s1 show ?thesis by simp
      qed
    qed
  qed
  from once obj arr show ?case by blast
qed

lemma json_loads_depth: "json_loads jt \<noteq> Inl DepthExceeded"
proof -
  have "2 * length (skip_ws jt) < Suc (2 * length jt)"
    using skip_ws_length [of jt] by simp
  with scan_depth [of "Suc (2 * length jt)"]
  have "scan_once (Suc (2 * length jt)) (skip_ws jt) \<noteq> Inl DepthExceeded" by blast
  then show ?thesis by (auto simp: json_loads_def split: sum.splits)
qed

section \<open>The normalizer: helper lemmas\<close>

lemma find_char_absent: "c \<notin> set s \<Longrightarrow> find_char c s = -1"
  by (induction s) auto

lemma find_char_present:
  "c \<in> set s \<Longrightarrow> \<exists>r. find_char c s = int r \<and> r < length s \<and> s ! r = c \<and> (\<forall>j<r. s ! j \<noteq> c)"
proof (induction s)
  case Nil
  then show ?case by simp
next
  case (Cons x xs)
  show ?case
  proof (cases "x = c")
    case True
    then show ?thesis by auto
  next
    case False
    with Cons.prems have "c \<in> set xs" by simp
    from Cons.IH [OF this] obtain r where
      r: "find_char c xs = int r" "r < length xs" "xs ! r = c" "\<forall>j<r. xs ! j \<noteq> c" by blast
    have "\<forall>j<Suc r. (x # xs) ! j \<noteq> c"
      using r(4) False by (auto simp: nth_Cons split: nat.splits)
    with r False show ?thesis
      by (intro exI [of _ "Suc r"]) (simp add: Let_def)
  qed
qed

lemma rfind_char_present:
  assumes "c \<in> set s"
  shows "\<exists>p. rfind_char c s = int p \<and> p < length s \<and> s ! p = c
             \<and> (\<forall>j. p < j \<and> j < length s \<longrightarrow> s ! j \<noteq> c)"
proof -
  from assms have "c \<in> set (rev s)" by simp
  from find_char_present [OF this] obtain r where
    r: "find_char c (rev s) = int r" "r < length s" "rev s ! r = c" "\<forall>j<r. rev s ! j \<noteq> c"
    by auto
  let ?p = "length s - 1 - r"
  have p: "?p < length s" using r(2) by simp
  have "s ! ?p = c"
    using r(2,3) by (simp add: rev_nth)
  moreover have "\<forall>j. ?p < j \<and> j < length s \<longrightarrow> s ! j \<noteq> c"
  proof (intro allI impI)
    fix j assume j: "?p < j \<and> j < length s"
    then have "length s - 1 - j < r" using r(2) by arith
    with r(4) have "rev s ! (length s - 1 - j) \<noteq> c" by blast
    moreover have "rev s ! (length s - 1 - j) = s ! j"
    proof -
      have lt: "length s - 1 - j < length s" using j by arith
      have "length s - Suc (length s - 1 - j) = j" using j by arith
      with rev_nth [OF lt] show ?thesis by simp
    qed
    ultimately show "s ! j \<noteq> c" by simp
  qed
  moreover have "rfind_char c s = int ?p"
    using r(1,2) by (simp add: rfind_char_def Let_def)
  ultimately show ?thesis using p by blast
qed

lemma takeWhile_sep:
  "\<not> P c \<Longrightarrow> takeWhile P (xs @ c # v) = takeWhile P xs"
  by (induction xs) auto

lemma dropWhile_sep:
  "\<not> P c \<Longrightarrow> dropWhile P (xs @ c # v) = dropWhile P xs @ c # v"
  by (induction xs) auto

lemma findall_words_sep:
  "\<not> is_word_char c \<Longrightarrow> findall_words (u @ c # v) = findall_words u @ findall_words v"
proof (induction u rule: findall_words.induct)
  case 1
  then show ?case by simp
next
  case (2 x xs)
  then show ?case
    by (simp add: takeWhile_sep dropWhile_sep)
qed

lemma findall_words_length:
  "w \<in> set (findall_words u) \<Longrightarrow> length w \<le> length u"
proof (induction u rule: findall_words.induct)
  case 1
  then show ?case by simp
next
  case (2 x xs)
  show ?case
  proof (cases "is_word_char x")
    case True
    with "2.prems" consider "w = x # takeWhile is_word_char xs"
      | "w \<in> set (findall_words (dropWhile is_word_char xs))" by auto
    then show ?thesis
    proof cases
      case 1
      then show ?thesis by (simp add: length_takeWhile_le)
    next
      case 2
      from "2.IH"(1) [OF True this] have "length w \<le> length (dropWhile is_word_char xs)" .
      also have "\<dots> \<le> length xs" by (rule length_dropWhile_le)
      finally show ?thesis by simp
    qed
  next
    case False
    with "2.prems" have "w \<in> set (findall_words xs)" by simp
    from "2.IH"(2) [OF False this] show ?thesis by simp
  qed
qed

lemma split_char_length: "length (split_char c s) = Suc (count_char c s)"
  by (induction s) (auto simp: count_char_def split: list.splits)

lemma struct_field_literal_total: "\<exists>r. struct_field_literal f = Inr r"
proof (cases "count_char (CHR '':'') f = 1")
  case True
  then have "length (split_char (CHR '':'') f) = 2" by (simp add: split_char_length)
  then obtain a b where "split_char (CHR '':'') f = [a, b]"
    by (cases "split_char (CHR '':'') f"; cases "tl (split_char (CHR '':'') f)") auto
  with True show ?thesis by (simp add: struct_field_literal_def)
next
  case False
  then show ?thesis by (simp add: struct_field_literal_def Let_def)
qed

lemma struct_fields_loop_total: "\<exists>r. struct_fields_loop xs acc = Inr r"
proof (induction xs arbitrary: acc)
  case Nil
  then show ?case by simp
next
  case (Cons x xs)
  from struct_field_literal_total [of x] obtain r where "struct_field_literal x = Inr r" ..
  with Cons.IH show ?case by simp
qed

lemma slice_to_nat: "slice_to s (int p) = take p s"
  by (simp add: slice_to_def slice_index_def min_def)

lemma slice_to_neg:
  "p \<le> length s \<Longrightarrow> 0 < n \<Longrightarrow> slice_to (take p s) (- int n) = take (p - n) s"
  by (auto simp: slice_to_def slice_index_def min_def nat_diff_distrib')

lemma rewrite_step_form:
  assumes "rfind_char (CHR ''<'') s = int p" and "p \<le> length s"
    and "findall_words (take p s) = x # xs"
  shows "last (x # xs) = ''struct'' \<Longrightarrow> \<exists>rest. rewrite_step s = Inr (take (p - 6) s @ rest)"
    and "last (x # xs) = ''array'' \<Longrightarrow> \<exists>rest. rewrite_step s = Inr (take (p - 5) s @ rest)"
    and "last (x # xs) \<noteq> ''struct'' \<Longrightarrow> last (x # xs) \<noteq> ''array'' \<Longrightarrow> rewrite_step s = Inr s"
proof -
  have prev: "slice_to s (int p) = take p s" by (rule slice_to_nat)
  have n6: "slice_to (take p s) (- 6) = take (p - 6) s"
    using slice_to_neg [OF assms(2), of 6] by simp
  have n5: "slice_to (take p s) (- 5) = take (p - 5) s"
    using slice_to_neg [OF assms(2), of 5] by simp
  {
    assume st: "last (x # xs) = ''struct''"
    let ?content = "slice s (int p + 1) (int p + find_char (CHR ''>'') (slice_from s (int p)))"
    from struct_fields_loop_total obtain r where
      r: "struct_fields_loop (split_char (CHR '','') ?content) ''['' = Inr r" by blast
    show "\<exists>rest. rewrite_step s = Inr (take (p - 6) s @ rest)"
      unfolding rewrite_step_def Let_def assms(1) prev assms(3) n6
      using st r by (simp del: last.simps)
  }
  {
    assume ar: "last (x # xs) = ''array''"
    show "\<exists>rest. rewrite_step s = Inr (take (p - 5) s @ rest)"
      unfolding rewrite_step_def Let_def assms(1) prev assms(3) n5
      using ar by (simp del: last.simps)
  }
  {
    assume "last (x # xs) \<noteq> ''struct''" "last (x # xs) \<noteq> ''array''"
    then show "rewrite_step s = Inr s"
      unfolding rewrite_step_def Let_def assms(1) prev assms(3)
      by (simp del: last.simps)
  }
qed

lemma lt_not_word: "\<not> is_word_char (CHR ''<'')"
  by (simp add: is_word_char_def)

lemma rewrite_step_keeps:
  assumes "q < length s" and "s ! q = CHR ''<''"
    and "preceding_identifier s q = Some w" and "w \<noteq> ''struct''" and "w \<noteq> ''array''"
  shows "\<exists>s'. rewrite_step s = Inr s' \<and> take (Suc q) s' = take (Suc q) s"
proof -
  from assms(1,2) have "CHR ''<'' \<in> set s" by (metis nth_mem)
  from rfind_char_present [OF this] obtain p where
    p: "rfind_char (CHR ''<'') s = int p" "p < length s" "s ! p = CHR ''<''"
       "\<forall>j. p < j \<and> j < length s \<longrightarrow> s ! j \<noteq> CHR ''<''"
    by blast
  from p(4) assms(1,2) have qp: "q \<le> p" by (meson not_le_imp_less)
  from assms(3) obtain x xs where wq: "findall_words (take q s) = x # xs" "last (x # xs) = w"
    by (auto simp: preceding_identifier_def split: list.splits)
  show ?thesis
  proof (cases "q = p")
    case True
    with wq have "findall_words (take p s) = x # xs" by simp
    from rewrite_step_form(3) [OF p(1) _ this] p(2) wq(2) assms(4,5)
    have "rewrite_step s = Inr s" by simp
    then show ?thesis by simp
  next
    case False
    with qp have lt: "q < p" by simp
    define mid where "mid = take (p - Suc q) (drop (Suc q) s)"
    have tp: "take p s = take q s @ CHR ''<'' # mid"
    proof -
      have "q < length (take p s)" using lt p(2) by simp
      from id_take_nth_drop [OF this]
      have a: "take p s = take q (take p s) @ take p s ! q # drop (Suc q) (take p s)" .
      have b: "take q (take p s) = take q s" using lt by (simp add: min_def)
      have c: "take p s ! q = CHR ''<''" using lt assms(2) by simp
      have d: "drop (Suc q) (take p s) = mid" by (simp add: mid_def drop_take)
      show ?thesis by (subst a) (simp only: b c d)
    qed
    have words: "findall_words (take p s) = (x # xs) @ findall_words mid"
      by (simp only: tp findall_words_sep [OF lt_not_word] wq(1))
    then obtain y ys where y: "findall_words (take p s) = y # ys" by simp
    have lastw: "last (y # ys) = (if findall_words mid = [] then w else last (findall_words mid))"
      using words y wq(2) by (metis append_Nil2 last_appendR)
    have midlen: "length mid \<le> p - Suc q"
      by (simp add: mid_def)
    have far: "last (y # ys) \<noteq> w \<Longrightarrow> Suc q + length (last (y # ys)) \<le> p"
    proof -
      assume "last (y # ys) \<noteq> w"
      with lastw have ne: "findall_words mid \<noteq> []" and l: "last (y # ys) = last (findall_words mid)"
        by (auto split: if_splits)
      from ne have "last (findall_words mid) \<in> set (findall_words mid)" by simp
      from findall_words_length [OF this] l midlen lt show ?thesis by simp
    qed
    consider (struct) "last (y # ys) = ''struct''" | (array) "last (y # ys) = ''array''"
      | (other) "last (y # ys) \<noteq> ''struct''" "last (y # ys) \<noteq> ''array''" by blast
    then show ?thesis
    proof cases
      case struct
      with far assms(4) have "Suc q + 6 \<le> p" by auto
      then have le: "Suc q \<le> p - 6" "p - 6 \<le> length s" using p(2) by arith+
      from rewrite_step_form(1) [OF p(1) _ y struct] p(2)
      obtain rest where r: "rewrite_step s = Inr (take (p - 6) s @ rest)" by auto
      have "take (Suc q) (take (p - 6) s @ rest) = take (Suc q) s"
        using le by (simp add: min_def)
      with r show ?thesis by simp
    next
      case array
      with far assms(5) have "Suc q + 5 \<le> p" by auto
      then have le: "Suc q \<le> p - 5" "p - 5 \<le> length s" using p(2) by arith+
      from rewrite_step_form(2) [OF p(1) _ y array] p(2)
      obtain rest where r: "rewrite_step s = Inr (take (p - 5) s @ rest)" by auto
      have "take (Suc q) (take (p - 5) s @ rest) = take (Suc q) s"
        using le by (simp add: min_def)
      with r show ?thesis by simp
    next
      case other
      from rewrite_step_form(3) [OF p(1) _ y other] p(2)
      have "rewrite_step s = Inr s" by simp
      then show ?thesis by simp
    qed
  qed
qed

lemma take_Suc_same:
  assumes "take (Suc q) s' = take (Suc q) s" and "q < length s"
  shows "q < length s'" and "s' ! q = s ! q" and "take q s' = take q s"
proof -
  have "length (take (Suc q) s') = length (take (Suc q) s)" using assms(1) by simp
  with assms(2) show "q < length s'" by (simp add: min_def split: if_splits)
  have "take (Suc q) s' ! q = take (Suc q) s ! q" using assms(1) by simp
  then show "s' ! q = s ! q" by simp
  have "take q (take (Suc q) s') = take q (take (Suc q) s)" using assms(1) by simp
  then show "take q s' = take q s" by (simp add: min_def)
qed

lemma rewrite_loop_keeps:
  assumes "q < length s" and "s ! q = CHR ''<''"
    and "preceding_identifier s q = Some w" and "w \<noteq> ''struct''" and "w \<noteq> ''array''"
  shows "\<exists>s'. rewrite_loop n s = Inr s' \<and> take (Suc q) s' = take (Suc q) s"
  using assms
proof (induction n arbitrary: s)
  case 0
  then show ?case by simp
next
  case (Suc n)
  from rewrite_step_keeps [OF Suc.prems] obtain s1 where
    s1: "rewrite_step s = Inr s1" "take (Suc q) s1 = take (Suc q) s" by blast
  note same = take_Suc_same [OF s1(2) Suc.prems(1)]
  have "preceding_identifier s1 q = Some w"
    using Suc.prems(3) same(3) by (simp add: preceding_identifier_def)
  from Suc.IH [OF same(1) _ this Suc.prems(4,5)] same(2) Suc.prems(2)
  obtain s' where "rewrite_loop n s1 = Inr s'" "take (Suc q) s' = take (Suc q) s1" by auto
  with s1 show ?case by simp
qed

lemma json_loads_not_object:
  assumes "c = CHR ''s'' \<or> c = CHR ''a''"
  shows "json_loads (json_text (c # r)) = Inl JSONDecodeError"
  using assms
  by (auto simp: json_loads_def json_text_def replace_char_def skip_ws_def is_json_ws_def)

lemma startswith_head:
  assumes "startswith t ''struct<'' \<or> startswith t ''array<''"
  shows "\<exists>c r. t = c # r \<and> (c = CHR ''s'' \<or> c = CHR ''a'')"
  using assms by (cases t) (auto simp: startswith_def)

lemma findall_words_nonempty:
  "c \<in> set u \<Longrightarrow> is_word_char c \<Longrightarrow> findall_words u \<noteq> []"
  by (induction u rule: findall_words.induct) auto

lemma preceding_identifier_exists:
  assumes "startswith t ''struct<'' \<or> startswith t ''array<''"
    and "q < length t" and "t ! q = CHR ''<''"
  shows "preceding_identifier t q \<noteq> None"
proof -
  from startswith_head [OF assms(1)] obtain c r where t: "t = c # r" "c = CHR ''s'' \<or> c = CHR ''a''"
    by blast
  from t assms(3) have "q \<noteq> 0" by (cases q) auto
  with t(1) have "c \<in> set (take q t)" by (cases q) auto
  moreover from t(2) have "is_word_char c" by (auto simp: is_word_char_def)
  ultimately have "findall_words (take q t) \<noteq> []" by (rule findall_words_nonempty)
  then show ?thesis by (simp add: preceding_identifier_def split: list.splits)
qed

section \<open>Bracket groups that are neither struct nor array\<close>

text \<open>
  Claim C10. Let a type string start with \<^verbatim>\<open>struct<\<close> or \<^verbatim>\<open>array<\<close> and have,
  at some position \<open>q\<close>, an opening bracket whose preceding identifier is neither
  \<^verbatim>\<open>struct\<close> nor \<^verbatim>\<open>array\<close>. Then the rewrite loop ends with that bracket and
  all the text before it still in place, \<^verbatim>\<open>generate_sub_fields\<close> fails with the
  JSON decoding error of \<^verbatim>\<open>json.loads\<close> (no value is returned, and the error is
  none of the kinds the specification names), and \<^verbatim>\<open>format_schema\<close> passes that
  error on for every column of that type.
\<close>

theorem unknown_bracket_group:
  assumes "startswith t ''struct<'' \<or> startswith t ''array<''"
    and "q < length t" and "t ! q = CHR ''<''"
    and "preceding_identifier t q = Some w" and "w \<noteq> ''struct''" and "w \<noteq> ''array''"
  shows "(\<exists>s. rewrite_loop (count_char (CHR ''<'') t) t = Inr s \<and> take (Suc q) s = take (Suc q) t)
       \<and> generate_sub_fields t = Inl JSONDecodeError
       \<and> (\<forall>d. map_of d ''Type'' = Some (PStr t) \<longrightarrow> format_column (PDict d) = Inl JSONDecodeError)
       \<and> (\<forall>d. map_of d ''Type'' = Some (PStr t) \<longrightarrow> import_table [PDict d] = Inl JSONDecodeError)"
proof -
  from rewrite_loop_keeps [OF assms(2-6)] obtain s where
    s: "rewrite_loop (count_char (CHR ''<'') t) t = Inr s" "take (Suc q) s = take (Suc q) t"
    by blast
  from startswith_head [OF assms(1)] obtain c r where t: "t = c # r" "c = CHR ''s'' \<or> c = CHR ''a''"
    by blast
  from s(2) t(1) obtain r' where "s = c # r'" by (cases s) auto
  with json_loads_not_object [OF t(2)] have "json_loads (json_text s) = Inl JSONDecodeError"
    by simp
  with s(1) have g: "generate_sub_fields t = Inl JSONDecodeError"
    by (simp add: generate_sub_fields_def)
  have f: "format_column (PDict d) = Inl JSONDecodeError" if "map_of d ''Type'' = Some (PStr t)" for d
    using that assms(1) g by (auto simp: format_column_def)
  then have "import_table [PDict d] = Inl JSONDecodeError" if "map_of d ''Type'' = Some (PStr t)" for d
    using that by (simp add: import_table_def)
  with s g f show ?thesis by blast
qed

theorem unknown_bracket_group_witness:
  "startswith ''struct<m:map<string,int>>'' ''struct<''
   \<and> (12::nat) < length ''struct<m:map<string,int>>''
   \<and> ''struct<m:map<string,int>>'' ! 12 = CHR ''<''
   \<and> preceding_identifier ''struct<m:map<string,int>>'' 12 = Some ''map''
   \<and> generate_sub_fields ''struct<m:map<string,int>>'' = Inl JSONDecodeError
   \<and> format_column (plain_column ''c'' ''struct<m:map<string,int>>'') = Inl JSONDecodeError"
proof -
  let ?t = "''struct<m:map<string,int>>''"
  have h1: "startswith ?t ''struct<'' \<or> startswith ?t ''array<''" by code_simp
  have h2: "(12::nat) < length ?t" by simp
  have h3: "?t ! 12 = CHR ''<''" by code_simp
  have h4: "preceding_identifier ?t 12 = Some ''map''" by code_simp
  have h5: "''map'' \<noteq> ''struct''" "''map'' \<noteq> ''array''" by simp_all
  have h6: "map_of [(''Name'', PStr ''c''), (''Type'', PStr ?t)] ''Type'' = Some (PStr ?t)" by simp
  have h0: "startswith ?t ''struct<''" by code_simp
  from unknown_bracket_group [OF h1 h2 h3 h4 h5] h6
  have "generate_sub_fields ?t = Inl JSONDecodeError"
    and "format_column (PDict [(''Name'', PStr ''c''), (''Type'', PStr ?t)]) = Inl JSONDecodeError"
    by blast+
  with h0 h2 h3 h4 show ?thesis by (simp add: plain_column_def)
qed

section \<open>Properties of the type-name mapper\<close>

lemma startswith_append: "startswith u p \<Longrightarrow> startswith (u @ v) p"
  by (auto simp: startswith_def) (metis append_eq_conv_conj append_take_drop_id take_append length_take min.absorb2 nat_le_linear take_all)

lemma startswith_take4: "startswith u p \<Longrightarrow> 4 \<le> length p \<Longrightarrow> take 4 u = take 4 p"
  unfolding startswith_def by (metis min.absorb1 take_take)

lemma startswith_length: "startswith u p \<Longrightarrow> length p \<le> length u"
  unfolding startswith_def by (metis length_take min.cobounded2 min.commute)

lemma table_prefix_length: "p \<in> fst ` set type_table \<Longrightarrow> 4 \<le> length p"
  by (auto simp: type_table_def)

lemma table_prefix_distinct: "distinct (map (take 4) (map fst type_table))"
  by (simp add: type_table_def)

lemma table_prefix_key:
  "p \<in> fst ` set type_table \<Longrightarrow> q \<in> fst ` set type_table \<Longrightarrow> take 4 p = take 4 q \<Longrightarrow> p = q"
  using table_prefix_distinct unfolding distinct_map
  by (metis inj_onD list.set_map)

lemma recognized_append:
  assumes "recognized s" and "p \<in> fst ` set type_table"
  shows "startswith (lower (s @ t)) p = startswith (lower s) p"
proof
  assume "startswith (lower s) p"
  then show "startswith (lower (s @ t)) p"
    by (simp add: lower_def startswith_append)
next
  assume st: "startswith (lower (s @ t)) p"
  from assms(1) obtain q where q: "q \<in> fst ` set type_table" "startswith (lower s) q"
    by (auto simp: recognized_def list_ex_iff)
  have len: "4 \<le> length (lower s)"
    using startswith_length [OF q(2)] table_prefix_length [OF q(1)] by simp
  have a: "take 4 (lower s) = take 4 q"
    using startswith_take4 [OF q(2)] table_prefix_length [OF q(1)] by simp
  have b: "take 4 (lower (s @ t)) = take 4 p"
    using startswith_take4 [OF st] table_prefix_length [OF assms(2)] by simp
  have c: "take 4 (lower (s @ t)) = take 4 (lower s)"
    using len by (simp add: lower_def)
  have "take 4 p = take 4 q"
    using a b c by (rule_tac trans [OF _ a]) (simp only: b [symmetric] c)
  then have "p = q"
    by (rule table_prefix_key [OF assms(2) q(1)])
  with q(2) show "startswith (lower s) p" by simp
qed

text \<open>
  Claim C5. \<^verbatim>\<open>map_type_from_sql\<close> is the table-driven mapper of the specification:
  on a string it returns the canonical name of the first row of the ordered table
  whose prefix the lower-cased string starts with, and \<open>variant\<close> exactly when no
  row matches (so also for the empty string); \<^verbatim>\<open>None\<close> is passed through.
\<close>

theorem map_type_from_sql_table:
  "map_type_from_sql PNone = Inr (TypeNameMapper_spec None)
   \<and> TypeNameMapper_spec None = None
   \<and> map_type_from_sql (PStr s) = Inr (TypeNameMapper_spec (Some s))
   \<and> (TypeNameMapper_spec (Some s) = Some ''variant'') = (\<not> recognized s)
   \<and> TypeNameMapper_spec (Some []) = Some ''variant''"
  by (simp add: TypeNameMapper_spec_def type_table_def recognized_def startswith_def lower_def)

text \<open>
  Claim C9. When a string has a recognized prefix, appending any text to it (a
  parenthesized length or precision such as \<^verbatim>\<open>(255)\<close> in particular) does not
  change the canonical name that \<^verbatim>\<open>map_type_from_sql\<close> returns.
\<close>

theorem map_type_suffix_stable:
  "recognized s \<Longrightarrow> map_type_from_sql (PStr (s @ t)) = map_type_from_sql (PStr s)"
  by (simp add: recognized_append type_table_def)

theorem map_type_suffix_stable_witness:
  "recognized ''varchar'' \<and>
   map_type_from_sql (PStr (''varchar'' @ ''(255)'')) = map_type_from_sql (PStr ''varchar'')
   \<and> map_type_from_sql (PStr ''varchar(255)'') = Inr (Some ''varchar'')"
proof -
  have r: "recognized ''varchar''" by code_simp
  have v: "map_type_from_sql (PStr ''varchar(255)'') = Inr (Some ''varchar'')" by code_simp
  show ?thesis using r v map_type_suffix_stable [OF r, of "''(255)''"] by simp
qed

section \<open>The field-tree builder: helper lemmas\<close>

lemma import_record_loop_entries:
  "map import_record_field xs = map Inr es \<Longrightarrow>
   import_record_loop xs acc = Inr (foldl (\<lambda>a e. AList.update (fst e) (snd e) a) acc es)"
proof (induction xs arbitrary: acc es)
  case Nil
  then show ?case by simp
next
  case (Cons x xs)
  then obtain e es' where es: "es = e # es'" by (cases es) auto
  with Cons.prems have "import_record_field x = Inr e" "map import_record_field xs = map Inr es'"
    by auto
  with Cons.IH [of es'] es show ?case
    by (cases e) simp
qed

lemma import_record_loop_success:
  "import_record_loop xs acc = Inr m \<Longrightarrow> \<exists>es. map import_record_field xs = map Inr es"
proof (induction xs arbitrary: acc)
  case Nil
  then show ?case by simp
next
  case (Cons x xs)
  from Cons.prems obtain e where e: "import_record_field x = Inr e"
    by (cases "import_record_field x") auto
  with Cons.prems have "import_record_loop xs (AList.update (fst e) (snd e) acc) = Inr m"
    by (cases e) simp
  from Cons.IH [OF this] obtain es where "map import_record_field xs = map Inr es" ..
  with e have "map import_record_field (x # xs) = map Inr (e # es)" by simp
  then show ?case by blast
qed

lemma map_of_foldl_update:
  "map_of (foldl (\<lambda>a e. AList.update (fst e) (snd e) a) acc es) = map_of acc ++ map_of (rev es)"
proof (induction es arbitrary: acc)
  case Nil
  then show ?case by simp
next
  case (Cons e es)
  show ?case
    by (simp add: Cons.IH update_conv' map_add_upd_left fun_eq_iff map_add_def split: option.splits)
qed

lemma distinct_foldl_update:
  "distinct (map fst acc) \<Longrightarrow>
   distinct (map fst (foldl (\<lambda>a e. AList.update (fst e) (snd e) a) acc es))"
  by (induction es arbitrary: acc) (simp_all add: distinct_update)

lemma map_of_rev_last:
  assumes "i < length es" and "\<forall>j. i < j \<and> j < length es \<longrightarrow> fst (es ! j) \<noteq> fst (es ! i)"
  shows "map_of (rev es) (fst (es ! i)) = Some (snd (es ! i))"
proof -
  have split: "es = take i es @ es ! i # drop (Suc i) es"
    using assms(1) by (simp add: id_take_nth_drop)
  have "fst (es ! i) \<notin> fst ` set (drop (Suc i) es)"
  proof
    assume "fst (es ! i) \<in> fst ` set (drop (Suc i) es)"
    then obtain e where "e \<in> set (drop (Suc i) es)" "fst e = fst (es ! i)" by auto
    then obtain n where "n < length (drop (Suc i) es)" "drop (Suc i) es ! n = e"
      by (auto simp: in_set_conv_nth)
    then have "Suc i + n < length es" "es ! (Suc i + n) = e" by auto
    with assms(2) \<open>fst e = fst (es ! i)\<close> show False by auto
  qed
  then have none: "map_of (rev (drop (Suc i) es)) (fst (es ! i)) = None"
    by (simp add: map_of_eq_None_iff)
  have "rev es = rev (drop (Suc i) es) @ [es ! i] @ rev (take i es)"
    by (subst split) simp
  then show ?thesis
    using none by (simp add: map_add_def)
qed

lemma format_schema_columns:
  "format_schema cols = Inr schema \<Longrightarrow> list_all2 (\<lambda>c c'. format_column c = Inr c') cols schema"
proof (induction cols arbitrary: schema)
  case Nil
  then show ?case by simp
next
  case (Cons c cols)
  then show ?case
    by (auto split: sum.splits)
qed

lemma map_of_update_other:
  "k \<noteq> k' \<Longrightarrow> map_of (AList.update k' v d) k = map_of d k"
  by (simp add: update_conv')

lemma format_column_shape:
  assumes "format_column c = Inr c'"
  shows "\<exists>d d' t. c = PDict d \<and> c' = PDict d' \<and> map_of d ''Type'' = Some (PStr t)
           \<and> (\<forall>k. k \<noteq> ''Type'' \<and> k \<noteq> ''Items'' \<and> k \<noteq> ''Fields'' \<longrightarrow> map_of d' k = map_of d k)
           \<and> (if startswith t ''array<'' then map_of d' ''Type'' = Some (PStr ''array'')
               else if startswith t ''struct<'' then map_of d' ''Type'' = Some (PStr ''struct'')
               else c' = c)"
proof -
  from assms obtain d where c: "c = PDict d"
    by (cases c) (auto simp: format_column_def)
  from assms c obtain v where v: "map_of d ''Type'' = Some v"
    by (auto simp: format_column_def split: option.splits)
  from assms c v obtain t where t: "v = PStr t"
    by (cases v) (auto simp: format_column_def)
  show ?thesis
    using assms c v t
    by (auto simp: format_column_def update_conv' split: sum.splits if_splits)
qed

lemma import_record_field_attrs:
  "import_record_field (PDict d) = Inr (k, f) \<Longrightarrow>
   hash_key (dict_get d ''Name'') = Inr k \<and> required f = Some (truthy (dict_get d ''Hive''))
   \<and> description f = dict_get d ''Comment''"
  by (auto simp: Let_def split: sum.splits if_splits)

lemma formatted_record_field:
  assumes "format_column c = Inr c'" and "import_record_field c' = Inr e"
  shows "column_key c = Inr (fst e)"
    and "c = PDict d \<Longrightarrow> required (snd e) = Some (truthy (dict_get d ''Hive''))
           \<and> description (snd e) = dict_get d ''Comment''
           \<and> hash_key (dict_get d ''Name'') = Inr (fst e)"
proof -
  from format_column_shape [OF assms(1)] obtain d0 d' where
    c: "c = PDict d0" and c': "c' = PDict d'"
    and same: "\<forall>k. k \<noteq> ''Type'' \<and> k \<noteq> ''Items'' \<and> k \<noteq> ''Fields'' \<longrightarrow> map_of d' k = map_of d0 k"
    by blast
  from same have eq: "dict_get d' ''Name'' = dict_get d0 ''Name''"
    "dict_get d' ''Hive'' = dict_get d0 ''Hive''" "dict_get d' ''Comment'' = dict_get d0 ''Comment''"
    by (simp_all add: dict_get_def)
  from assms(2) c' have "import_record_field (PDict d') = Inr (fst e, snd e)" by simp
  from import_record_field_attrs [OF this] eq
  have attrs: "hash_key (dict_get d0 ''Name'') = Inr (fst e)"
    "required (snd e) = Some (truthy (dict_get d0 ''Hive''))"
    "description (snd e) = dict_get d0 ''Comment''"
    by simp_all
  show "column_key c = Inr (fst e)"
    using c attrs(1) by (simp add: column_key_def)
  show "c = PDict d \<Longrightarrow> required (snd e) = Some (truthy (dict_get d ''Hive''))
           \<and> description (snd e) = dict_get d ''Comment''
           \<and> hash_key (dict_get d ''Name'') = Inr (fst e)"
    using c attrs by simp
qed










section \<open>The normalizer writes no metadata key\<close>

text \<open>
  For a type string without quote characters and backslashes the text that the
  normalizer hands to \<^verbatim>\<open>json.loads\<close> is clean (the pieces taken from the type
  string are clean, the pieces that the normalizer writes are tame), and a clean
  text without backslashes is read into a value with no key \<^verbatim>\<open>Hive\<close> or
  \<^verbatim>\<open>Comment\<close>: the reader takes a key and the colon after it from the text as
  they stand.
\<close>

lemma krun_Nil [simp]: "krun q [] = q"
  by (simp add: krun_def)

lemma krun_Cons [simp]: "krun q (c # s) = krun (kstep q c) s"
  by (simp add: krun_def)


lemma kstep_Found [simp]: "kstep Found c = Found"
  by (simp add: kstep_def)

lemma krun_Found [simp]: "krun Found s = Found"
  by (induction s) simp_all




























































section \<open>Concrete scenarios\<close>

text \<open>
  Claim C1, as the code has it. For the column type \<^verbatim>\<open>struct<a:string,b:array<int>>\<close>
  the importer returns a struct field whose mapping holds \<open>a\<close> of type \<open>string\<close> and
  then \<open>b\<close> of type \<open>array\<close>, in that order; the items of \<open>b\<close> have type \<open>variant\<close>,
  because \<^verbatim>\<open>int\<close> starts with none of the prefixes of \<^verbatim>\<open>map_type_from_sql\<close>.
\<close>

theorem struct_scenario:
  "import_table [plain_column ''c'' ''struct<a:string,b:array<int>>''] =
     Inr [(KStr ''c'',
           Field (Some ''struct'') (Some False) PNone
             (FieldsDict
                [(KStr ''a'', Field (Some ''string'') (Some False) PNone NoFields None),
                 (KStr ''b'', Field (Some ''array'') (Some False) PNone NoFields
                    (Some (Field (Some ''variant'') None PNone NoFields None)))])
             None)]"
  by code_simp

text \<open>Claim C1 as stated fails: the items of \<open>b\<close> do not have type \<open>integer\<close>.\<close>

theorem struct_scenario_items_type:
  "type_of (item (member ''b'' (top ''c''
     (import_table [plain_column ''c'' ''struct<a:string,b:array<int>>''])))) \<noteq> Some ''integer''"
  by code_simp

text \<open>
  Claim C2, as the code has it. For the unbalanced type \<^verbatim>\<open>struct<a:string\<close> the
  normalizer fails in \<^verbatim>\<open>json.loads\<close> with a JSON decoding error, and the error
  passes through \<^verbatim>\<open>format_schema\<close> and the import of the table unchanged.
\<close>

theorem unbalanced_json_error:
  "generate_sub_fields ''struct<a:string'' = Inl JSONDecodeError
   \<and> format_schema [plain_column ''c'' ''struct<a:string''] = Inl JSONDecodeError
   \<and> import_table [plain_column ''c'' ''struct<a:string''] = Inl JSONDecodeError"
  by code_simp

text \<open>Claim C2 as stated fails: the error is not an \<open>UnbalancedBracketsError\<close>.\<close>

theorem unbalanced_not_named_error:
  "generate_sub_fields ''struct<a:string'' \<noteq> Inl UnbalancedBracketsError"
  by code_simp

text \<open>
  Claim C3 at the column type \<^verbatim>\<open>array<array<string>>\<close>: the items field of the
  column has type \<open>array\<close>, yet \<^verbatim>\<open>import_array_field\<close> (line 228) stores the inner
  field under \<^verbatim>\<open>fields\<close> and leaves \<^verbatim>\<open>items\<close> absent, where
  \<^verbatim>\<open>import_record_fields\<close> (line 210) stores it under \<^verbatim>\<open>items\<close>.
\<close>

theorem nested_array_items:
  "import_table [plain_column ''c'' ''array<array<string>>''] =
     Inr [(KStr ''c'',
           Field (Some ''array'') (Some False) PNone NoFields
             (Some (Field (Some ''array'') None PNone
                      (FieldsObj (Field (Some ''string'') None PNone NoFields None))
                      None)))]"
  by code_simp

section \<open>What format_schema changes\<close>




section \<open>Metadata of the top-level field and of its children\<close>

lemma top_level_metadata_aux:
  assumes "import_table cols = Inr m"
    and "i < length cols"
    and "cols ! i = PDict d"
    and "\<forall>j. i < j \<and> j < length cols \<longrightarrow> column_key (cols ! j) \<noteq> column_key (cols ! i)"
  shows "\<exists>k f. hash_key (dict_get d ''Name'') = Inr k \<and> map_of m k = Some f
           \<and> required f = Some (truthy (dict_get d ''Hive''))
           \<and> description f = dict_get d ''Comment''"
proof -
  from assms(1) obtain schema where fs: "format_schema cols = Inr schema"
    and loop: "import_record_loop schema [] = Inr m"
    by (auto simp: import_table_def split: sum.splits)
  from format_schema_columns [OF fs]
  have len: "length schema = length cols"
    and col: "\<And>j. j < length cols \<Longrightarrow> format_column (cols ! j) = Inr (schema ! j)"
    by (auto simp: list_all2_conv_all_nth)
  from import_record_loop_success [OF loop] obtain es where
    es: "map import_record_field schema = map Inr es" ..
  then have les: "length es = length cols"
    using len by (metis length_map)
  have ent: "\<And>j. j < length cols \<Longrightarrow> import_record_field (schema ! j) = Inr (es ! j)"
    using es len les by (metis nth_map)
  from import_record_loop_entries [OF es, of "[]"] loop
  have m: "map_of m = map_of (rev es)"
    by (simp add: map_of_foldl_update)
  have key: "\<And>j. j < length cols \<Longrightarrow> column_key (cols ! j) = Inr (fst (es ! j))"
    using formatted_record_field(1) [OF col ent] by simp
  have "\<forall>j. i < j \<and> j < length es \<longrightarrow> fst (es ! j) \<noteq> fst (es ! i)"
    using assms(2,4) key les by (metis Inr_inject)
  from map_of_rev_last [OF _ this] assms(2) les
  have "map_of m (fst (es ! i)) = Some (snd (es ! i))"
    using m by simp
  moreover from formatted_record_field(2) [OF col [OF assms(2)] ent [OF assms(2)] assms(3)]
  have "required (snd (es ! i)) = Some (truthy (dict_get d ''Hive''))"
    "description (snd (es ! i)) = dict_get d ''Comment''"
    "hash_key (dict_get d ''Name'') = Inr (fst (es ! i))"
    by simp_all
  ultimately show ?thesis by blast
qed

text \<open>
  Claim C6. In the mapping that the import of a table returns, the field stored
  for a column (one that no later column of the same name overwrites) has
  \<^verbatim>\<open>required\<close> equal to the truth value of the column's \<^verbatim>\<open>Hive\<close> flag and
  \<^verbatim>\<open>description\<close> equal to the column's \<^verbatim>\<open>Comment\<close>. The column \<open>id\<close> of type
  \<^verbatim>\<open>bigint\<close> without the flag gives the field \<open>id\<close> of type \<open>long\<close>, not required;
  the partition key \<open>p\<close> gives a required field.
\<close>

theorem top_level_metadata:
  "(\<forall>cols m i d.
      import_table cols = Inr m \<and> i < length cols \<and> cols ! i = PDict d
      \<and> (\<forall>j. i < j \<and> j < length cols \<longrightarrow> column_key (cols ! j) \<noteq> column_key (cols ! i))
      \<longrightarrow> (\<exists>k f. hash_key (dict_get d ''Name'') = Inr k \<and> map_of m k = Some f
             \<and> required f = Some (truthy (dict_get d ''Hive''))
             \<and> description f = dict_get d ''Comment''))
   \<and> import_table [plain_column ''id'' ''bigint''] =
       Inr [(KStr ''id'', Field (Some ''long'') (Some False) PNone NoFields None)]
   \<and> import_table [partition_column ''p'' ''string''] =
       Inr [(KStr ''p'', Field (Some ''string'') (Some True) (PStr ''Partition Key'') NoFields None)]"
proof -
  have a: "import_table [plain_column ''id'' ''bigint''] =
       Inr [(KStr ''id'', Field (Some ''long'') (Some False) PNone NoFields None)]"
    by code_simp
  have b: "import_table [partition_column ''p'' ''string''] =
       Inr [(KStr ''p'', Field (Some ''string'') (Some True) (PStr ''Partition Key'') NoFields None)]"
    by code_simp
  show ?thesis
    using a b top_level_metadata_aux by blast
qed

theorem top_level_metadata_witness:
  "import_table [plain_column ''id'' ''bigint'', partition_column ''p'' ''string'',
                 plain_column ''id'' ''string''] =
     Inr [(KStr ''id'', Field (Some ''string'') (Some False) PNone NoFields None),
          (KStr ''p'', Field (Some ''string'') (Some True) (PStr ''Partition Key'') NoFields None)]
   \<and> (\<exists>k f. hash_key (PStr ''p'') = Inr k
        \<and> map_of [(KStr ''id'', Field (Some ''string'') (Some False) PNone NoFields None),
                   (KStr ''p'', Field (Some ''string'') (Some True) (PStr ''Partition Key'') NoFields None)] k
            = Some f
        \<and> required f = Some True \<and> description f = PStr ''Partition Key'')"
proof -
  let ?cols = "[plain_column ''id'' ''bigint'', partition_column ''p'' ''string'',
                plain_column ''id'' ''string'']"
  let ?m = "[(KStr ''id'', Field (Some ''string'') (Some False) PNone NoFields None),
             (KStr ''p'', Field (Some ''string'') (Some True) (PStr ''Partition Key'') NoFields None)]"
  let ?d = "[(''Name'', PStr ''p''), (''Type'', PStr ''string''), (''Hive'', PBool True),
             (''Comment'', PStr ''Partition Key'')]"
  have h1: "import_table ?cols = Inr ?m" by code_simp
  have h2: "(1::nat) < length ?cols" by simp
  have h3: "?cols ! 1 = PDict ?d" by (simp add: partition_column_def)
  have k2: "column_key (?cols ! 2) \<noteq> column_key (?cols ! 1)" by code_simp
  have h4: "\<forall>j. 1 < j \<and> j < length ?cols \<longrightarrow> column_key (?cols ! j) \<noteq> column_key (?cols ! 1)"
  proof (intro allI impI)
    fix j :: nat
    assume "1 < j \<and> j < length ?cols"
    then have "j = 2" by simp
    with k2 show "column_key (?cols ! j) \<noteq> column_key (?cols ! 1)" by simp
  qed
  from top_level_metadata [THEN conjunct1, rule_format, of ?cols ?m 1 ?d] h1 h2 h3 h4
  have "\<exists>k f. hash_key (dict_get ?d ''Name'') = Inr k \<and> map_of ?m k = Some f
           \<and> required f = Some (truthy (dict_get ?d ''Hive''))
           \<and> description f = dict_get ?d ''Comment''"
    by blast
  then show ?thesis using h1 by (simp add: dict_get_def)
qed




section \<open>Duplicate column names\<close>

text \<open>
  Claim C8. When the loop body succeeds on every record, with keys and fields
  \<open>es\<close> in the order of the records, \<^verbatim>\<open>import_record_fields\<close> returns a mapping
  with unique keys in which each key holds the field of the last record of that
  key (the first pair of that key in the reversed list), so a later record of the
  same name replaces the earlier one and no other key is affected.
\<close>

theorem last_write_wins:
  "map import_record_field xs = map Inr es \<Longrightarrow>
   \<exists>m. import_record_fields (PList xs) = Inr m \<and> distinct (map fst m)
       \<and> map_of m = map_of (rev es)"
  by (simp add: import_record_loop_entries map_of_foldl_update distinct_foldl_update)

theorem last_write_wins_witness:
  "map import_record_field
     [plain_column ''x'' ''string'', plain_column ''y'' ''date'', plain_column ''x'' ''bigint''] =
   map Inr [(KStr ''x'', Field (Some ''string'') (Some False) PNone NoFields None),
            (KStr ''y'', Field (Some ''date'') (Some False) PNone NoFields None),
            (KStr ''x'', Field (Some ''long'') (Some False) PNone NoFields None)]
   \<and> import_record_fields
       (PList [plain_column ''x'' ''string'', plain_column ''y'' ''date'', plain_column ''x'' ''bigint'']) =
     Inr [(KStr ''x'', Field (Some ''long'') (Some False) PNone NoFields None),
          (KStr ''y'', Field (Some ''date'') (Some False) PNone NoFields None)]
   \<and> (\<exists>m. import_record_fields
       (PList [plain_column ''x'' ''string'', plain_column ''y'' ''date'', plain_column ''x'' ''bigint'']) = Inr m
       \<and> distinct (map fst m)
       \<and> map_of m = map_of (rev [(KStr ''x'', Field (Some ''string'') (Some False) PNone NoFields None),
            (KStr ''y'', Field (Some ''date'') (Some False) PNone NoFields None),
            (KStr ''x'', Field (Some ''long'') (Some False) PNone NoFields None)]))"
proof -
  have h: "map import_record_field
     [plain_column ''x'' ''string'', plain_column ''y'' ''date'', plain_column ''x'' ''bigint''] =
   map Inr [(KStr ''x'', Field (Some ''string'') (Some False) PNone NoFields None),
            (KStr ''y'', Field (Some ''date'') (Some False) PNone NoFields None),
            (KStr ''x'', Field (Some ''long'') (Some False) PNone NoFields None)]"
    by code_simp
  have v: "import_record_fields
       (PList [plain_column ''x'' ''string'', plain_column ''y'' ''date'', plain_column ''x'' ''bigint'']) =
     Inr [(KStr ''x'', Field (Some ''long'') (Some False) PNone NoFields None),
          (KStr ''y'', Field (Some ''date'') (Some False) PNone NoFields None)]"
    by code_simp
  from last_write_wins [OF h] h v show ?thesis by blast
qed

end
